theory Spec2Isabelle
  imports Main "HOL-Library.Char_ord" "HOL-Library.List_Lexorder" "HOL-Library.Multiset"
begin

section \<open>JavaScript values\<close>

text \<open>
  The values the extension handles dynamically (thrown objects, table cells, parsed JSON).
  A string is represented by the bytes of its UTF-8 encoding. Numbers are the integers
  and \<open>NaN\<close>; a number with a fractional part is outside the representation, and every
  function that would have to produce one answers \<open>Unmodelled\<close> instead. An object is the
  list of its own properties in insertion order, with distinct keys.
\<close>

datatype jsval =
    JUndefined
  | JNull
  | JBool bool
  | JNum int
  | JNaN
  | JStr string
  | JArr "jsval list"
  | JObj "(string \<times> jsval) list"

datatype error = TypeError | SyntaxError | Unmodelled

text \<open>ToBoolean, as used by \<open>if (v)\<close>, \<open>a || b\<close> and \<open>!v\<close>.\<close>

fun truthy :: "jsval \<Rightarrow> bool" where
  "truthy JUndefined = False"
| "truthy JNull = False"
| "truthy (JBool b) = b"
| "truthy (JNum n) = (n \<noteq> 0)"
| "truthy JNaN = False"
| "truthy (JStr s) = (s \<noteq> [])"
| "truthy (JArr xs) = True"
| "truthy (JObj kvs) = True"

definition js_or :: "jsval \<Rightarrow> jsval \<Rightarrow> jsval" where
  "js_or a b = (if truthy a then a else b)"

text \<open>
  Reading a property \<open>v.k\<close> where \<open>k\<close> is not an inherited property (the code reads
  \<open>error\<close>, \<open>message\<close>, \<open>@message\<close>, \<open>Visualization\<close> and \<open>Title\<close>): the own property
  of an object, \<open>undefined\<close> on anything else. The code never reads a property of \<open>null\<close>
  or \<open>undefined\<close> without \<open>?.\<close> or a truthiness test before it.
\<close>

fun js_get :: "jsval \<Rightarrow> string \<Rightarrow> jsval" where
  "js_get (JObj kvs) k = (case map_of kvs k of Some v \<Rightarrow> v | None \<Rightarrow> JUndefined)"
| "js_get v k = JUndefined"

text \<open>Decimal digits of a natural number, and Number.prototype.toString on integers.\<close>

fun show_nat :: "nat \<Rightarrow> string" where
  "show_nat n =
     (if n < 10 then [char_of (48 + n)]
      else show_nat (n div 10) @ [char_of (48 + n mod 10)])"

definition show_int :: "int \<Rightarrow> string" where
  "show_int i = (if i < 0 then CHR ''-'' # show_nat (nat (- i)) else show_nat (nat i))"

fun intersperse :: "'a list \<Rightarrow> 'a list list \<Rightarrow> 'a list" where
  "intersperse sep [] = []"
| "intersperse sep [x] = x"
| "intersperse sep (x # y # ys) = x @ sep @ intersperse sep (y # ys)"

text \<open>
  ToString, as applied by template literals, \<open>String.prototype.concat\<close> and \<open>toString()\<close>
  of the built-in prototypes. Array.prototype.join writes \<open>null\<close> and \<open>undefined\<close>
  elements as the empty string. A number is written digit by digit, which is what
  \<open>Number.prototype.toString\<close> prints for the integers of magnitude at most \<open>2^53\<close>;
  beyond them it prints the shortest digits that read back as the same double, and an
  exponent from \<open>10^21\<close> on, which is not modelled.
\<close>

fun js_toString :: "jsval \<Rightarrow> string" where
  "js_toString JUndefined = ''undefined''"
| "js_toString JNull = ''null''"
| "js_toString (JBool b) = (if b then ''true'' else ''false'')"
| "js_toString (JNum n) = show_int n"
| "js_toString JNaN = ''NaN''"
| "js_toString (JStr s) = s"
| "js_toString (JArr xs) =
     intersperse '',''
       (map (\<lambda>x. if x = JNull \<or> x = JUndefined then [] else js_toString x) xs)"
| "js_toString (JObj kvs) = ''[object Object]''"

section \<open>The tabular response\<close>

text \<open>
  \<open>KustoResponseDataSet\<close> of azure-kusto-data, as the extension reads it. A table is
  either a \<open>KustoResultTable\<close>, whose \<open>rows()\<close> yields rows with a \<open>raw\<close> array, or the
  plain JSON of a saved notebook, whose \<open>data\<close> property is an array of arrays
  (\<open>PlainArrays\<close>, empty when \<open>data\<close> is absent) or a non-empty array of objects
  (\<open>PlainObjects\<close>, each object with its properties in insertion order, none of them
  named by an array index). \<open>primaryResults\<close> is \<open>None\<close> when it is not an array.
\<close>

record column =
  col_name :: string
  col_type :: string
  ordinal :: nat

datatype table_body =
    KustoRows "jsval list list"
  | PlainArrays "jsval list list"
  | PlainObjects "(string \<times> jsval) list list"

record KustoResultTable =
  name :: string
  columns :: "column list"
  body :: table_body

record KustoResponseDataSet =
  tables :: "KustoResultTable list"
  tableNames :: "string list"
  primaryResults :: "KustoResultTable list option"

section \<open>The execution engine: \<open>KernelPerConnection.executeCell\<close>\<close>

text \<open>
  What \<open>catch (ex)\<close> can tell about the thrown value. \<open>None\<close> is a value that is falsy or
  not of type \<open>object\<close>. \<open>response\<close> is \<open>Some r\<close> when \<open>'response' in ex\<close>,
  \<open>ex.response\<close> is truthy and of type \<open>object\<close>; its \<open>status\<close> is a number (an HTTP
  status code) or absent. \<open>ex_message\<close> is \<open>None\<close> when \<open>'message' in ex\<close> is false.
\<close>

record http_response =
  status :: "int option"
  data :: jsval

record thrown_object =
  response :: "http_response option"
  instanceofError :: bool
  ex_name :: jsval
  ex_message :: "jsval option"
  innererror :: jsval

type_synonym thrown = "thrown_object option"

definition defaultErrorMessage :: string where
  "defaultErrorMessage = ''Failed to execute query''"

definition defaultErrorName :: string where
  "defaultErrorName = ''Query Error''"

text \<open>The message the catch block extracts from an HTTP response (lines 185 to 189).\<close>

definition responseErrorMessage :: "http_response \<Rightarrow> jsval" where
  "responseErrorMessage r =
     (if truthy (js_get (data r) ''error'') then
        js_or (js_or (js_get (js_get (data r) ''error'') ''@message'')
                     (js_get (js_get (data r) ''error'') ''message''))
              (JStr defaultErrorMessage)
      else if truthy (js_get (data r) ''message'') then js_get (data r) ''message''
      else JStr defaultErrorMessage)"

text \<open>The name the catch block derives from the HTTP status (lines 191 to 194).\<close>

definition statusErrorName :: "int option \<Rightarrow> string" where
  "statusErrorName st =
     (if st = Some 400 then ''Invalid Query''
      else if st = Some 401 \<or> st = Some 403 then ''Authentication Error''
      else if st = Some 408 \<or> st = Some 504 then ''Query Timeout''
      else if (case st of Some n \<Rightarrow> n \<ge> 500 | None \<Rightarrow> False) then ''Server Error''
      else defaultErrorName)"

text \<open>The pair \<open>(errorName, errorMessage)\<close> at the end of the catch block (lines 176 to 206).\<close>

definition errorNameAndMessage :: "thrown \<Rightarrow> jsval \<times> jsval" where
  "errorNameAndMessage ex =
     (case ex of
        None \<Rightarrow> (JStr defaultErrorName, JStr defaultErrorMessage)
      | Some e \<Rightarrow>
          (case response e of
             Some r \<Rightarrow> (JStr (statusErrorName (status r)), responseErrorMessage r)
           | None \<Rightarrow>
               if instanceofError e then
                 (ex_name e, (case ex_message e of Some m \<Rightarrow> m | None \<Rightarrow> JUndefined))
               else
                 (case ex_message e of
                    Some m \<Rightarrow>
                      (JStr defaultErrorName,
                       JStr (js_toString m @
                         (if truthy (js_get (innererror e) ''message'')
                          then '' ('' @ js_toString (js_get (innererror e) ''message'') @ '')''
                          else [])))
                  | None \<Rightarrow> (JStr defaultErrorName, JStr defaultErrorMessage))))"

text \<open>
  An output artifact of a cell: the JSON of a result under a mime type, or an error item
  carrying \<open>name\<close> and \<open>message\<close>.
\<close>

datatype "output" =
    ResultOutput string KustoResponseDataSet
  | ErrorOutput jsval jsval

text \<open>
  The \<open>NotebookCellExecution\<close>: the start timestamp, the outputs of the cell, and the
  arguments of \<open>task.end\<close> once it has been called.
\<close>

record task =
  startTime :: "nat option"
  outputs :: "output list"
  ended :: "(bool \<times> nat option) option"

text \<open>How the promise of \<open>client.execute\<close> settles.\<close>

datatype settlement =
    Fulfilled "KustoResponseDataSet option"
  | Rejected thrown

text \<open>
  \<open>Promise.race\<close> of the token's promise and the query's promise (lines 137 to 140), with
  the instants at which the token fires (if it does) and at which the query settles.
  Modelled from the spec: \<open>createPromiseFromToken\<close> (utils) is not among the sources; with
  \<open>{action: 'resolve', value: undefined}\<close> it resolves with \<open>undefined\<close> when the token
  is cancelled.
\<close>

definition race :: "nat option \<Rightarrow> nat \<times> settlement \<Rightarrow> settlement" where
  "race cancelledAt query =
     (case cancelledAt of
        Some tc \<Rightarrow> if tc \<le> fst query then Fulfilled None else snd query
      | None \<Rightarrow> snd query)"

text \<open>\<open>task.token.isCancellationRequested\<close> when the race has settled.\<close>

definition isCancellationRequested :: "nat option \<Rightarrow> nat \<times> settlement \<Rightarrow> bool" where
  "isCancellationRequested cancelledAt query =
     (case cancelledAt of Some tc \<Rightarrow> tc \<le> fst query | None \<Rightarrow> False)"

text \<open>
  Lines 160 to 165: \<open>primaryResults\<close> is rebuilt from the tables named \<open>PrimaryResult\<close>
  when it is not an array or is empty, then these tables leave \<open>tables\<close> and their name
  leaves \<open>tableNames\<close>.
\<close>

definition normalizeResults :: "KustoResponseDataSet \<Rightarrow> KustoResponseDataSet" where
  "normalizeResults results =
     (let primary =
            (case primaryResults results of
               None \<Rightarrow> filter (\<lambda>item. name item = ''PrimaryResult'') (tables results)
             | Some ps \<Rightarrow>
                 if length ps = 0
                 then filter (\<lambda>item. name item = ''PrimaryResult'') (tables results)
                 else ps)
      in results\<lparr>primaryResults := Some primary,
                 tables := filter (\<lambda>item. name item \<noteq> ''PrimaryResult'') (tables results),
                 tableNames := filter (\<lambda>item. item \<noteq> ''PrimaryResult'') (tableNames results)\<rparr>)"

text \<open>
  \<open>executeCell\<close> (lines 114 to 213). \<open>chartTypeOf\<close> stands for \<open>getChartType\<close> of
  \<open>../output/chart\<close>, which is not among the sources: it is applied to the results once
  \<open>primaryResults\<close> is rebuilt, and only decides the mime type. \<open>old\<close> are the outputs
  the cell had, \<open>hasClient\<close> tells whether \<open>Client.create\<close> returned a client,
  \<open>now0\<close> and \<open>now1\<close> are the two readings of \<open>Date.now()\<close>.
\<close>

definition executeCell ::
  "(KustoResponseDataSet \<Rightarrow> string option) \<Rightarrow> output list \<Rightarrow> bool \<Rightarrow> nat \<Rightarrow>
   nat option \<Rightarrow> nat \<times> settlement \<Rightarrow> nat \<Rightarrow> task" where
  "executeCell chartTypeOf old hasClient now0 cancelledAt query now1 =
     (if \<not> hasClient then
        \<lparr>startTime = None, outputs = old, ended = Some (False, None)\<rparr>
      else
        (case race cancelledAt query of
           Fulfilled results \<Rightarrow>
             (case results of
                None \<Rightarrow>
                  \<lparr>startTime = Some now0, outputs = [], ended = Some (False, Some now1)\<rparr>
              | Some r \<Rightarrow>
                  if isCancellationRequested cancelledAt query then
                    \<lparr>startTime = Some now0, outputs = [], ended = Some (False, Some now1)\<rparr>
                  else
                    (let chartType =
                           chartTypeOf (r\<lparr>primaryResults := primaryResults (normalizeResults r)\<rparr>);
                         results' = normalizeResults r;
                         mime =
                           (if chartType \<noteq> None \<and> chartType \<noteq> Some [] \<and> chartType \<noteq> Some ''table''
                            then ''application/vnd.kusto.result.viz+json''
                            else ''application/vnd.kusto.result+json'')
                     in \<lparr>startTime = Some now0, outputs = [ResultOutput mime results'],
                         ended = Some (True, Some now1)\<rparr>))
         | Rejected ex \<Rightarrow>
             \<lparr>startTime = Some now0,
              outputs = [ErrorOutput (fst (errorNameAndMessage ex)) (snd (errorNameAndMessage ex))],
              ended = Some (False, Some now1)\<rparr>))"

section \<open>The platform: \<open>JSON.parse\<close>, \<open>JSON.stringify\<close> and base64\<close>

text \<open>
  \<open>encodeConnectionInfo\<close>, \<open>decodeConnectionInfo\<close> and \<open>getChartType\<close> are built on
  \<open>JSON.parse\<close>, \<open>JSON.stringify\<close> and \<open>Buffer\<close>. They are modelled on the byte
  representation of strings. Where the model does not follow the platform (a number with
  a fraction or an exponent, an integer beyond \<open>2^53\<close>, a \<open>\u\<close> escape beyond ASCII,
  base64 text that Node would decode leniently, bytes that are not well-formed UTF-8) it
  answers \<open>Unmodelled\<close>; \<open>SyntaxError\<close> and \<open>TypeError\<close> are the exceptions the
  platform throws.
\<close>

subsection \<open>\<open>JSON.parse\<close>\<close>

definition is_ws :: "char \<Rightarrow> bool" where
  "is_ws c = (c = CHR '' '' \<or> c = CHR 0x09 \<or> c = CHR 0x0A \<or> c = CHR 0x0D)"

definition skip_ws :: "string \<Rightarrow> string" where
  "skip_ws s = dropWhile is_ws s"

definition is_digit :: "char \<Rightarrow> bool" where
  "is_digit c = (48 \<le> (of_char c :: nat) \<and> (of_char c :: nat) \<le> 57)"

definition hex_val :: "char \<Rightarrow> nat option" where
  "hex_val c =
     (let n = (of_char c :: nat) in
      if 48 \<le> n \<and> n \<le> 57 then Some (n - 48)
      else if 97 \<le> n \<and> n \<le> 102 then Some (n - 87)
      else if 65 \<le> n \<and> n \<le> 70 then Some (n - 55)
      else None)"

definition hex4 :: "char \<Rightarrow> char \<Rightarrow> char \<Rightarrow> char \<Rightarrow> nat option" where
  "hex4 a b c d =
     (case (hex_val a, hex_val b, hex_val c, hex_val d) of
        (Some x, Some y, Some z, Some w) \<Rightarrow> Some (((x * 16 + y) * 16 + z) * 16 + w)
      | _ \<Rightarrow> None)"

definition unescape :: "char \<Rightarrow> char option" where
  "unescape e =
     (if e = CHR 0x22 then Some (CHR 0x22)
      else if e = CHR 0x5C then Some (CHR 0x5C)
      else if e = CHR ''/'' then Some (CHR ''/'')
      else if e = CHR ''b'' then Some (CHR 0x08)
      else if e = CHR ''f'' then Some (CHR 0x0C)
      else if e = CHR ''n'' then Some (CHR 0x0A)
      else if e = CHR ''r'' then Some (CHR 0x0D)
      else if e = CHR ''t'' then Some (CHR 0x09)
      else None)"

text \<open>
  The characters of a string literal after its opening quote, up to the closing quote,
  with the rest of the input.
\<close>

definition prepend :: "char \<Rightarrow> error + (string \<times> string) \<Rightarrow> error + (string \<times> string)" where
  "prepend c r = (case r of Inl e \<Rightarrow> Inl e | Inr (s, rest) \<Rightarrow> Inr (c # s, rest))"

fun parse_chars :: "string \<Rightarrow> error + (string \<times> string)" where
  "parse_chars [] = Inl SyntaxError"
| "parse_chars (c # cs) =
     (if c = CHR 0x22 then Inr ([], cs)
      else if c = CHR 0x5C then
        (case cs of
           [] \<Rightarrow> Inl SyntaxError
         | e # cs1 \<Rightarrow>
             if e = CHR ''u'' then
               (case cs1 of
                  h1 # h2 # h3 # h4 # cs2 \<Rightarrow>
                    (case hex4 h1 h2 h3 h4 of
                       None \<Rightarrow> Inl SyntaxError
                     | Some n \<Rightarrow>
                         if n < 128 then prepend (char_of n) (parse_chars cs2)
                         else Inl Unmodelled)
                | _ \<Rightarrow> Inl SyntaxError)
             else
               (case unescape e of
                  None \<Rightarrow> Inl SyntaxError
                | Some ch \<Rightarrow> prepend ch (parse_chars cs1)))
      else if (of_char c :: nat) < 32 then Inl SyntaxError
      else prepend c (parse_chars cs))"

text \<open>
  A number: an optional minus sign, then \<open>0\<close> or a digit sequence without a leading zero.
\<close>

definition digits_value :: "string \<Rightarrow> int" where
  "digits_value ds = foldl (\<lambda>a c. 10 * a + (of_char c - 48)) 0 ds"

definition parse_number :: "string \<Rightarrow> error + (jsval \<times> string)" where
  "parse_number s =
     (let neg = (s \<noteq> [] \<and> hd s = CHR ''-'');
          s1 = (if neg then tl s else s);
          ds = takeWhile is_digit s1;
          rest = dropWhile is_digit s1
      in if ds = [] then Inl SyntaxError
         else if 1 < length ds \<and> hd ds = CHR ''0'' then Inl SyntaxError
         else if rest \<noteq> [] \<and> (hd rest = CHR ''.'' \<or> hd rest = CHR ''e'' \<or> hd rest = CHR ''E'')
           then Inl Unmodelled
         else if 2 ^ 53 < digits_value ds then Inl Unmodelled
         else Inr (JNum (if neg then - digits_value ds else digits_value ds), rest))"

text \<open>
  Setting a key of an insertion-ordered map (the properties of a parsed object, a \<open>Map\<close>):
  a key that is present keeps its place and takes the new value, a new key goes last.
\<close>

fun assoc_set :: "('k \<times> 'v) list \<Rightarrow> 'k \<Rightarrow> 'v \<Rightarrow> ('k \<times> 'v) list" where
  "assoc_set [] k v = [(k, v)]"
| "assoc_set ((k', v') # kvs) k v =
     (if k' = k then (k, v) # kvs else (k', v') # assoc_set kvs k v)"

text \<open>
  The grammar of JSON values. The first argument bounds the number of nested calls; it is
  set to the length of the text, and a run that exhausts it answers \<open>Unmodelled\<close>.
\<close>

fun parse_value :: "nat \<Rightarrow> string \<Rightarrow> error + (jsval \<times> string)"
  and parse_elements :: "nat \<Rightarrow> jsval list \<Rightarrow> string \<Rightarrow> error + (jsval \<times> string)"
  and parse_members :: "nat \<Rightarrow> (string \<times> jsval) list \<Rightarrow> string \<Rightarrow> error + (jsval \<times> string)"
where
  "parse_value 0 s = Inl Unmodelled"
| "parse_value (Suc n) s =
     (case s of
        [] \<Rightarrow> Inl SyntaxError
      | c # cs \<Rightarrow>
          if c = CHR ''{'' then
            (if skip_ws cs \<noteq> [] \<and> hd (skip_ws cs) = CHR ''}''
             then Inr (JObj [], tl (skip_ws cs))
             else parse_members n [] (skip_ws cs))
          else if c = CHR ''['' then
            (if skip_ws cs \<noteq> [] \<and> hd (skip_ws cs) = CHR '']''
             then Inr (JArr [], tl (skip_ws cs))
             else parse_elements n [] (skip_ws cs))
          else if c = CHR 0x22 then
            (case parse_chars cs of Inl e \<Rightarrow> Inl e | Inr (str, rest) \<Rightarrow> Inr (JStr str, rest))
          else if take 4 s = ''true'' then Inr (JBool True, drop 4 s)
          else if take 5 s = ''false'' then Inr (JBool False, drop 5 s)
          else if take 4 s = ''null'' then Inr (JNull, drop 4 s)
          else if c = CHR ''-'' \<or> is_digit c then parse_number s
          else Inl SyntaxError)"
| "parse_elements 0 acc s = Inl Unmodelled"
| "parse_elements (Suc n) acc s =
     (case parse_value n s of
        Inl e \<Rightarrow> Inl e
      | Inr (v, rest) \<Rightarrow>
          (case skip_ws rest of
             [] \<Rightarrow> Inl SyntaxError
           | c # cs \<Rightarrow>
               if c = CHR '','' then parse_elements n (acc @ [v]) (skip_ws cs)
               else if c = CHR '']'' then Inr (JArr (acc @ [v]), cs)
               else Inl SyntaxError))"
| "parse_members 0 acc s = Inl Unmodelled"
| "parse_members (Suc n) acc s =
     (case s of
        [] \<Rightarrow> Inl SyntaxError
      | q # s1 \<Rightarrow>
          if q \<noteq> CHR 0x22 then Inl SyntaxError
          else
            (case parse_chars s1 of
               Inl e \<Rightarrow> Inl e
             | Inr (k, s2) \<Rightarrow>
                 (case skip_ws s2 of
                    [] \<Rightarrow> Inl SyntaxError
                  | c # s3 \<Rightarrow>
                      if c \<noteq> CHR '':'' then Inl SyntaxError
                      else
                        (case parse_value n (skip_ws s3) of
                           Inl e \<Rightarrow> Inl e
                         | Inr (v, s4) \<Rightarrow>
                             (case skip_ws s4 of
                                [] \<Rightarrow> Inl SyntaxError
                              | d # s5 \<Rightarrow>
                                  if d = CHR '','' then parse_members n (assoc_set acc k v) (skip_ws s5)
                                  else if d = CHR ''}'' then Inr (JObj (assoc_set acc k v), s5)
                                  else Inl SyntaxError)))))"

definition JSON_parse :: "string \<Rightarrow> error + jsval" where
  "JSON_parse s =
     (case parse_value (Suc (length s)) (skip_ws s) of
        Inl e \<Rightarrow> Inl e
      | Inr (v, rest) \<Rightarrow> if skip_ws rest = [] then Inr v else Inl SyntaxError)"

subsection \<open>\<open>JSON.stringify\<close> with a property list\<close>

text \<open>
  QuoteJSONString: the quote, the backslash and the control characters are escaped, all
  other bytes are copied.
\<close>

definition hex_digit :: "nat \<Rightarrow> char" where
  "hex_digit n = ''0123456789abcdef'' ! n"

definition escape_char :: "char \<Rightarrow> string" where
  "escape_char c =
     (if c = CHR 0x22 then [CHR 0x5C, CHR 0x22]
      else if c = CHR 0x5C then [CHR 0x5C, CHR 0x5C]
      else if c = CHR 0x08 then [CHR 0x5C, CHR ''b'']
      else if c = CHR 0x0C then [CHR 0x5C, CHR ''f'']
      else if c = CHR 0x0A then [CHR 0x5C, CHR ''n'']
      else if c = CHR 0x0D then [CHR 0x5C, CHR ''r'']
      else if c = CHR 0x09 then [CHR 0x5C, CHR ''t'']
      else if (of_char c :: nat) < 32 then
        [CHR 0x5C, CHR ''u'', CHR ''0'', CHR ''0'',
         hex_digit ((of_char c :: nat) div 16), hex_digit ((of_char c :: nat) mod 16)]
      else [c])"

fun escape :: "string \<Rightarrow> string" where
  "escape [] = []"
| "escape (c # cs) = escape_char c @ escape cs"

definition quote :: "string \<Rightarrow> string" where
  "quote s = CHR 0x22 # escape s @ [CHR 0x22]"

text \<open>
  \<open>JSON.stringify(value, replacer)\<close> where \<open>replacer\<close> is an array of distinct strings:
  every object, nested ones too, is written with the properties the array names, in the
  order of the array, leaving out those that are missing or \<open>undefined\<close>. The result is
  \<open>None\<close> when the platform returns \<open>undefined\<close>.
\<close>

fun JSON_stringify :: "jsval \<Rightarrow> string list \<Rightarrow> string option" where
  "JSON_stringify JUndefined K = None"
| "JSON_stringify JNull K = Some ''null''"
| "JSON_stringify (JBool b) K = Some (if b then ''true'' else ''false'')"
| "JSON_stringify (JNum n) K = Some (show_int n)"
| "JSON_stringify JNaN K = Some ''null''"
| "JSON_stringify (JStr s) K = Some (quote s)"
| "JSON_stringify (JArr xs) K =
     Some (''['' @ intersperse '',''
        (map (\<lambda>x. case JSON_stringify x K of None \<Rightarrow> ''null'' | Some t \<Rightarrow> t) xs) @ '']'')"
| "JSON_stringify (JObj kvs) K =
     (let rendered = map (\<lambda>kv. (fst kv, JSON_stringify (snd kv) K)) kvs
      in Some (''{'' @ intersperse '',''
           (concat (map (\<lambda>k. case map_of rendered k of
                                 Some (Some t) \<Rightarrow> [quote k @ '':'' @ t]
                               | _ \<Rightarrow> []) K)) @ ''}''))"

text \<open>
  \<open>Object.keys\<close>, in the order of the representation (the one caller sorts the keys), and
  \<open>Array.prototype.sort\<close> without comparator on strings, which compares UTF-16 code
  units: this is the order of the bytes unless a character beyond the basic plane occurs.
\<close>

definition ascii :: "string \<Rightarrow> bool" where
  "ascii s = list_all (\<lambda>c. (of_char c :: nat) < 128) s"

definition Object_keys :: "jsval \<Rightarrow> error + string list" where
  "Object_keys v =
     (case v of
        JObj kvs \<Rightarrow> Inr (map fst kvs)
      | JArr xs \<Rightarrow> Inr (map show_nat [0..<length xs])
      | JStr s \<Rightarrow> if ascii s then Inr (map show_nat [0..<length s]) else Inl Unmodelled
      | JUndefined \<Rightarrow> Inl TypeError
      | JNull \<Rightarrow> Inl TypeError
      | _ \<Rightarrow> Inr [])"

definition sort_strings :: "string list \<Rightarrow> error + string list" where
  "sort_strings ks =
     (if list_all (list_all (\<lambda>c. (of_char c :: nat) < 240)) ks then Inr (sort ks)
      else Inl Unmodelled)"

subsection \<open>Base64 of the UTF-8 bytes\<close>

text \<open>Well-formed UTF-8 (Unicode, table 3-7).\<close>

definition is_cont :: "char \<Rightarrow> bool" where
  "is_cont c = (128 \<le> (of_char c :: nat) \<and> (of_char c :: nat) < 192)"

fun utf8 :: "string \<Rightarrow> bool" where
  "utf8 [] = True"
| "utf8 (c # cs) =
     (if (of_char c :: nat) < 128 then utf8 cs
      else if 194 \<le> (of_char c :: nat) \<and> (of_char c :: nat) < 224 then
        (case cs of c1 # r \<Rightarrow> is_cont c1 \<and> utf8 r | _ \<Rightarrow> False)
      else if 224 \<le> (of_char c :: nat) \<and> (of_char c :: nat) < 240 then
        (case cs of
           c1 # c2 # r \<Rightarrow>
             is_cont c1 \<and> is_cont c2
             \<and> (if (of_char c :: nat) = 224 then 160 \<le> (of_char c1 :: nat) else True)
             \<and> (if (of_char c :: nat) = 237 then (of_char c1 :: nat) < 160 else True)
             \<and> utf8 r
         | _ \<Rightarrow> False)
      else if 240 \<le> (of_char c :: nat) \<and> (of_char c :: nat) < 245 then
        (case cs of
           c1 # c2 # c3 # r \<Rightarrow>
             is_cont c1 \<and> is_cont c2 \<and> is_cont c3
             \<and> (if (of_char c :: nat) = 240 then 144 \<le> (of_char c1 :: nat) else True)
             \<and> (if (of_char c :: nat) = 244 then (of_char c1 :: nat) < 144 else True)
             \<and> utf8 r
         | _ \<Rightarrow> False)
      else False)"

text \<open>
  \<open>Buffer.from(value).toString('base64')\<close> and its inverse on canonical base64 text
  (groups of four characters of the standard alphabet, padded with \<open>=\<close>, unused bits
  zero).
\<close>

definition b64chars :: string where
  "b64chars = ''ABCDEFGHIJKLMNOPQRSTUVWXYZabcdefghijklmnopqrstuvwxyz0123456789+/''"

definition b64_enc :: "nat \<Rightarrow> char" where
  "b64_enc n = b64chars ! n"

fun index_of :: "'a \<Rightarrow> 'a list \<Rightarrow> nat option" where
  "index_of x [] = None"
| "index_of x (y # ys) = (if x = y then Some 0 else map_option Suc (index_of x ys))"

definition b64_dec :: "char \<Rightarrow> nat option" where
  "b64_dec c = index_of c b64chars"

fun base64 :: "string \<Rightarrow> string" where
  "base64 [] = []"
| "base64 [a] =
     [b64_enc (of_char a div 4), b64_enc (of_char a mod 4 * 16), CHR ''='', CHR ''='']"
| "base64 [a, b] =
     [b64_enc (of_char a div 4), b64_enc (of_char a mod 4 * 16 + of_char b div 16),
      b64_enc (of_char b mod 16 * 4), CHR ''='']"
| "base64 (a # b # c # r) =
     [b64_enc (of_char a div 4), b64_enc (of_char a mod 4 * 16 + of_char b div 16),
      b64_enc (of_char b mod 16 * 4 + of_char c div 64), b64_enc (of_char c mod 64)]
     @ base64 r"

fun unbase64 :: "string \<Rightarrow> string option" where
  "unbase64 [] = Some []"
| "unbase64 (a # b # c # d # r) =
     (case (b64_dec a, b64_dec b) of
        (Some x, Some y) \<Rightarrow>
          if c = CHR ''='' \<and> d = CHR ''='' \<and> r = [] then
            (if y mod 16 = 0 then Some [char_of (x * 4 + y div 16)] else None)
          else
            (case b64_dec c of
               None \<Rightarrow> None
             | Some z \<Rightarrow>
                 if d = CHR ''='' \<and> r = [] then
                   (if z mod 4 = 0
                    then Some [char_of (x * 4 + y div 16), char_of (y mod 16 * 16 + z div 4)]
                    else None)
                 else
                   (case b64_dec d of
                      None \<Rightarrow> None
                    | Some w \<Rightarrow>
                        map_option
                          (\<lambda>bs. char_of (x * 4 + y div 16) # char_of (y mod 16 * 16 + z div 4)
                                 # char_of (z mod 4 * 64 + w) # bs)
                          (unbase64 r)))
      | _ \<Rightarrow> None)"
| "unbase64 _ = None"

section \<open>Connection identity: \<open>kusto/connections/types.ts\<close>\<close>

text \<open>
  \<open>stringToBase64\<close> and \<open>base64ToString\<close> (lines 71 to 90), in their \<open>Buffer\<close>
  branch. \<open>Buffer.toString('utf8')\<close> is the identity on well-formed bytes.
\<close>

definition stringToBase64 :: "string \<Rightarrow> string" where
  "stringToBase64 v = base64 v"

definition base64ToString :: "string \<Rightarrow> error + string" where
  "base64ToString b =
     (case unbase64 b of
        None \<Rightarrow> Inl Unmodelled
      | Some bytes \<Rightarrow> if utf8 bytes then Inr bytes else Inl Unmodelled)"

text \<open>
  \<open>encodeConnectionInfo\<close> (lines 24 to 27) and \<open>decodeConnectionInfo\<close> (lines 29 to
  34). \<open>Buffer.from(undefined)\<close> throws a TypeError.
\<close>

definition encodeConnectionInfo :: "jsval \<Rightarrow> error + string" where
  "encodeConnectionInfo info =
     (case Object_keys info of
        Inl e \<Rightarrow> Inl e
      | Inr ks \<Rightarrow>
          (case sort_strings ks of
             Inl e \<Rightarrow> Inl e
           | Inr sorted_ks \<Rightarrow>
               (case JSON_stringify info sorted_ks of
                  None \<Rightarrow> Inl TypeError
                | Some json \<Rightarrow> Inr (stringToBase64 json))))"

definition decodeConnectionInfo :: "string \<Rightarrow> error + jsval" where
  "decodeConnectionInfo info =
     (case base64ToString info of
        Inl e \<Rightarrow> Inl e
      | Inr text \<Rightarrow>
          (case JSON_parse text of
             Inl e \<Rightarrow> Inl e
           | Inr decoded \<Rightarrow>
               (case encodeConnectionInfo decoded of
                  Inl e \<Rightarrow> Inl e
                | Inr encoded \<Rightarrow>
                    (case base64ToString encoded of
                       Inl e \<Rightarrow> Inl e
                     | Inr text' \<Rightarrow> JSON_parse text'))))"

section \<open>Visualization inference: \<open>getChartType\<close>\<close>

text \<open>
  The rows \<open>getChartType\<close> and \<open>renderChart\<close> read from a table (lines 122 to 138):
  the \<open>raw\<close> arrays of a \<open>KustoResultTable\<close>, the arrays of plain JSON, or
  \<open>Object.values\<close> of each object of plain JSON.
\<close>

definition tableRows :: "KustoResultTable \<Rightarrow> jsval list list" where
  "tableRows t =
     (case body t of
        KustoRows rs \<Rightarrow> rs
      | PlainArrays rs \<Rightarrow> rs
      | PlainObjects os \<Rightarrow> map (map snd) os)"

text \<open>\<open>row[i]\<close> on an array: \<open>undefined\<close> beyond its length.\<close>

definition cell :: "jsval list \<Rightarrow> nat \<Rightarrow> jsval" where
  "cell row i = (if i < length row then row ! i else JUndefined)"

text \<open>\<open>String.prototype.includes\<close>.\<close>

fun js_includes :: "string \<Rightarrow> string \<Rightarrow> bool" where
  "js_includes [] p = (p = [])"
| "js_includes (c # cs) p = (take (length p) (c # cs) = p \<or> js_includes cs p)"

text \<open>\<open>JSON.parse\<close> applied to any value: the argument is converted to a string first.\<close>

definition JSON_parse_value :: "jsval \<Rightarrow> error + jsval" where
  "JSON_parse_value v = JSON_parse (js_toString v)"

datatype orientation = Vertical | Horizontal

text \<open>
  The decision \<open>getChartType\<close> returns: \<open>pie\<close>, \<open>time\<close> or \<open>bar\<close> with the title
  (\<open>data.Title || ''\<close>), a bar with its orientation; \<open>None\<close> is \<open>undefined\<close>.
\<close>

datatype chartType =
    Pie jsval
  | Time jsval
  | Bar jsval orientation

text \<open>The mapping of the parsed metadata (lines 167 to 182).\<close>

definition chartOfMetadata :: "jsval \<Rightarrow> chartType option" where
  "chartOfMetadata d =
     (if js_get d ''Visualization'' = JStr ''piechart''
        then Some (Pie (js_or (js_get d ''Title'') (JStr [])))
      else if js_get d ''Visualization'' = JStr ''barchart''
        then Some (Bar (js_or (js_get d ''Title'') (JStr [])) Horizontal)
      else if js_get d ''Visualization'' = JStr ''timechart''
              \<or> js_get d ''Visualization'' = JStr ''linechart''
        then Some (Time (js_or (js_get d ''Title'') (JStr [])))
      else if js_get d ''Visualization'' = JStr ''columnchart''
        then Some (Bar (js_or (js_get d ''Title'') (JStr [])) Vertical)
      else None)"

text \<open>
  \<open>getChartType\<close> (lines 106 to 183). A \<open>JSON.parse\<close> that throws leaves \<open>data\<close> as
  it was; the second \<open>JSON.parse\<close> runs only when \<open>data\<close> is falsy.
\<close>

definition getChartType :: "KustoResponseDataSet \<Rightarrow> error + chartType option" where
  "getChartType results =
     (if length (tables results) = 0 then Inr None
      else
        (case find (\<lambda>item. name item = ''@ExtendedProperties'') (tables results) of
           None \<Rightarrow> Inr None
         | Some queryPropertiesTable \<Rightarrow>
             (let rows = tableRows queryPropertiesTable in
              if length rows = 0 then Inr None
              else if cell (rows ! 0) 1 \<noteq> JStr ''Visualization''
                      \<and> (case cell (rows ! 0) 0 of
                            JStr s \<Rightarrow> \<not> js_includes s ''Visualization''
                          | _ \<Rightarrow> True)
                then Inr None
              else if JSON_parse_value (cell (rows ! 0) 2) = Inl Unmodelled then Inl Unmodelled
              else
                (let data = (case JSON_parse_value (cell (rows ! 0) 2) of
                               Inr v \<Rightarrow> v
                             | Inl e \<Rightarrow> JUndefined)
                 in if truthy data then Inr (chartOfMetadata data)
                    else
                      (case JSON_parse_value (cell (rows ! 0) 0) of
                         Inl e \<Rightarrow> if e = Unmodelled then Inl Unmodelled else Inr None
                       | Inr v \<Rightarrow> if truthy v then Inr (chartOfMetadata v) else Inr None)))))"

section \<open>Hierarchy aggregation: \<open>generateSunburstChart\<close>\<close>

text \<open>
  The numbers of the model are the integers that a double holds exactly and that
  \<open>Number.prototype.toString\<close> prints digit by digit: those of magnitude at most \<open>2^53\<close>.
  \<open>exact v\<close> tells that every number \<open>v.toString()\<close> prints is one of them.
\<close>

definition safe :: "int \<Rightarrow> bool" where
  "safe n = (- (2 ^ 53) \<le> n \<and> n \<le> 2 ^ 53)"

fun exact :: "jsval \<Rightarrow> bool" where
  "exact (JNum n) = safe n"
| "exact (JArr xs) = list_all exact xs"
| "exact v = True"

text \<open>
  \<open>v.toString()\<close>: a TypeError on \<open>null\<close> and \<open>undefined\<close>. \<open>a + b\<close>: concatenation
  when an operand is a string (or an array or object, which convert to strings), the sum
  of the numbers otherwise, \<open>NaN\<close> when an operand has no numeric value. Both answer
  \<open>Unmodelled\<close> when a number involved, or the sum, lies outside the numbers of the model,
  where a double rounds and \<open>toString\<close> no longer prints every digit.
\<close>

definition toString_method :: "jsval \<Rightarrow> error + string" where
  "toString_method v =
     (if v = JNull \<or> v = JUndefined then Inl TypeError
      else if exact v then Inr (js_toString v)
      else Inl Unmodelled)"

definition toPrimitive :: "jsval \<Rightarrow> jsval" where
  "toPrimitive v =
     (case v of JArr xs \<Rightarrow> JStr (js_toString v) | JObj kvs \<Rightarrow> JStr (js_toString v) | _ \<Rightarrow> v)"

definition toNumber_prim :: "jsval \<Rightarrow> int option" where
  "toNumber_prim v =
     (case v of
        JNum n \<Rightarrow> Some n
      | JNull \<Rightarrow> Some 0
      | JBool b \<Rightarrow> Some (if b then 1 else 0)
      | _ \<Rightarrow> None)"

definition is_JStr :: "jsval \<Rightarrow> bool" where
  "is_JStr v = (case v of JStr s \<Rightarrow> True | _ \<Rightarrow> False)"

definition js_plus :: "jsval \<Rightarrow> jsval \<Rightarrow> error + jsval" where
  "js_plus a b =
     (if \<not> exact a \<or> \<not> exact b then Inl Unmodelled
      else if is_JStr (toPrimitive a) \<or> is_JStr (toPrimitive b)
      then Inr (JStr (js_toString (toPrimitive a) @ js_toString (toPrimitive b)))
      else
        (case (toNumber_prim (toPrimitive a), toNumber_prim (toPrimitive b)) of
           (Some x, Some y) \<Rightarrow> if safe (x + y) then Inr (JNum (x + y)) else Inl Unmodelled
         | _ \<Rightarrow> Inr JNaN))"

text \<open>Running a list of computations that may throw, and a loop whose body may throw.\<close>

fun sequence :: "(error + 'a) list \<Rightarrow> error + 'a list" where
  "sequence [] = Inr []"
| "sequence (x # xs) =
     (case x of
        Inl e \<Rightarrow> Inl e
      | Inr v \<Rightarrow> (case sequence xs of Inl e \<Rightarrow> Inl e | Inr vs \<Rightarrow> Inr (v # vs)))"

fun fold_rows :: "('s \<Rightarrow> 'r \<Rightarrow> error + 's) \<Rightarrow> 'r list \<Rightarrow> 's \<Rightarrow> error + 's" where
  "fold_rows f [] s = Inr s"
| "fold_rows f (r # rs) s = (case f s r of Inl e \<Rightarrow> Inl e | Inr s' \<Rightarrow> fold_rows f rs s')"

text \<open>
  The rows \<open>generateSunburstChart\<close> reads (lines 351 to 365): objects of plain JSON are
  read by column name.
\<close>

definition sunburstRows :: "KustoResultTable \<Rightarrow> jsval list list" where
  "sunburstRows t =
     (case body t of
        KustoRows rs \<Rightarrow> rs
      | PlainArrays rs \<Rightarrow> rs
      | PlainObjects os \<Rightarrow>
          map (\<lambda>obj. map (\<lambda>col. js_get (JObj obj) (col_name col)) (columns t)) os)"

text \<open>
  The body of the loop over the rows for column 0 (lines 383 to 387): the \<open>Map\<close> from
  label to accumulated value, \<open>labelsAndValues.get(label) ?? 0\<close> being \<open>0\<close> for a label
  that is new.
\<close>

definition rootStep :: "nat \<Rightarrow> (string \<times> jsval) list \<Rightarrow> jsval list \<Rightarrow> error + (string \<times> jsval) list" where
  "rootStep valueColumnIndex labelsAndValues row =
     (case toString_method (cell row 0) of
        Inl e \<Rightarrow> Inl e
      | Inr label \<Rightarrow>
          (case js_plus
                  (case map_of labelsAndValues label of
                     None \<Rightarrow> JNum 0
                   | Some v \<Rightarrow> if v = JNull \<or> v = JUndefined then JNum 0 else v)
                  (cell row valueColumnIndex) of
             Inl e \<Rightarrow> Inl e
           | Inr added \<Rightarrow> Inr (assoc_set labelsAndValues label added)))"

text \<open>
  The body of the loop over the rows for a deeper column (lines 397 to 411): the \<open>Map\<close>
  from id to \<open>(value, label, parentLabel)\<close>.
\<close>

definition levelStep ::
  "nat \<Rightarrow> nat \<Rightarrow> (string \<times> jsval \<times> string \<times> string) list \<Rightarrow> jsval list
   \<Rightarrow> error + (string \<times> jsval \<times> string \<times> string) list" where
  "levelStep index valueColumnIndex labelsAndValues row =
     (case sequence (map (\<lambda>i. toString_method (cell row i)) [0..<index]) of
        Inl e \<Rightarrow> Inl e
      | Inr parts \<Rightarrow>
          (case toString_method (cell row index) of
             Inl e \<Rightarrow> Inl e
           | Inr label \<Rightarrow>
               (let parentLabel = intersperse ''-'' parts;
                    value = cell row valueColumnIndex;
                    id = parentLabel @ ''-'' @ label
                in case map_of labelsAndValues id of
                     Some (v, l, p) \<Rightarrow>
                       (case js_plus v value of
                          Inl e \<Rightarrow> Inl e
                        | Inr added \<Rightarrow> Inr (assoc_set labelsAndValues id (added, l, p)))
                   | None \<Rightarrow> Inr (assoc_set labelsAndValues id (value, label, parentLabel)))))"

text \<open>
  The nodes \<open>(id, label, parent, value)\<close> one column adds to the four output arrays
  (lines 377 to 419).
\<close>

definition sunburstLevel ::
  "nat \<Rightarrow> nat \<Rightarrow> jsval list list \<Rightarrow> error + (string \<times> string \<times> string \<times> jsval) list" where
  "sunburstLevel index valueColumnIndex rows =
     (if index = 0 then
        (case fold_rows (rootStep valueColumnIndex) rows [] of
           Inl e \<Rightarrow> Inl e
         | Inr labelsAndValues \<Rightarrow>
             Inr (map (\<lambda>(label, value). (label, label, [], value)) labelsAndValues))
      else
        (case fold_rows (levelStep index valueColumnIndex) rows [] of
           Inl e \<Rightarrow> Inl e
         | Inr labelsAndValues \<Rightarrow>
             Inr (map (\<lambda>(id, value, label, parentLabel). (id, label, parentLabel, value))
                    labelsAndValues)))"

record sunburstData =
  ids :: "string list"
  labels :: "string list"
  parents :: "string list"
  sb_values :: "jsval list"

text \<open>
  \<open>generateSunburstChart\<close> (lines 344 to 432): the data handed to Plotly, \<open>None\<close> when
  nothing is plotted. Reading \<open>primaryResults[0]\<close> of an empty array gives \<open>undefined\<close>,
  whose \<open>rows\<close> cannot be read.
\<close>

definition generateSunburstChart :: "KustoResponseDataSet \<Rightarrow> error + sunburstData option" where
  "generateSunburstChart results =
     (case primaryResults results of
        None \<Rightarrow> Inl Unmodelled
      | Some [] \<Rightarrow> Inl TypeError
      | Some (primaryResult # others) \<Rightarrow>
          if length (columns primaryResult) \<le> 2 then Inr None
          else
            (let valueColumnIndex = length (columns primaryResult) - 1 in
             case sequence (map (\<lambda>index. sunburstLevel index valueColumnIndex
                                            (sunburstRows primaryResult))
                                [0..<valueColumnIndex]) of
               Inl e \<Rightarrow> Inl e
             | Inr levels \<Rightarrow>
                 Inr (Some \<lparr>ids = map fst (concat levels),
                            labels = map (\<lambda>(i, l, p, v). l) (concat levels),
                            parents = map (\<lambda>(i, l, p, v). p) (concat levels),
                            sb_values = map (\<lambda>(i, l, p, v). v) (concat levels)\<rparr>)))"

text \<open>
  The aggregation in the words of the specification. The path of a row through a depth is
  the list of its stringified cells up to that depth. A depth has one node for each path,
  in the order of first occurrence: it is identified by the dash-joined path, labelled by
  the last cell of the path, parented by the dash-joined path of the prior depth, and its
  value sums the weights of the rows sharing that exact path.
\<close>

definition path :: "nat \<Rightarrow> jsval list \<Rightarrow> string list" where
  "path depth row = map (\<lambda>i. js_toString (cell row i)) [0..<Suc depth]"

definition first_occurrences :: "'a list \<Rightarrow> 'a list" where
  "first_occurrences xs = rev (remdups (rev xs))"

definition weight :: "nat \<Rightarrow> jsval list \<Rightarrow> int" where
  "weight valueColumnIndex row = (case cell row valueColumnIndex of JNum w \<Rightarrow> w | _ \<Rightarrow> 0)"

definition nodesByPath ::
  "nat \<Rightarrow> nat \<Rightarrow> jsval list list \<Rightarrow> (string \<times> string \<times> string \<times> jsval) list" where
  "nodesByPath depth valueColumnIndex rows =
     map (\<lambda>p.
            (intersperse ''-'' p, last p, intersperse ''-'' (butlast p),
             JNum (sum_list (map (weight valueColumnIndex)
                                 (filter (\<lambda>row. path depth row = p) rows)))))
         (first_occurrences (map (path depth) rows))"

text \<open>
  The aggregation by joined path, stated without the loops (that the loops compute it is
  proved below). The key of a row at a depth is its dash-joined path, so that rows with
  different paths can have the same key; a depth has one node for each key, in the order
  of first occurrence, whose label
  and parent are read from the first row with that key and whose value combines the last
  column of the rows with that key by \<open>+\<close>, from \<open>0\<close> at depth 0 and from the first of
  them at a deeper depth. \<open>addition\<close> is \<open>+\<close> on exact integers: numbers, \<open>null\<close> (as 0)
  and booleans (as 0 and 1) are added, a string (or an array or object) makes it the
  concatenation of the two operands, and \<open>undefined\<close> or \<open>NaN\<close> among numbers gives
  \<open>NaN\<close>.
\<close>

definition pathKey :: "nat \<Rightarrow> jsval list \<Rightarrow> string" where
  "pathKey depth row = intersperse ''-'' (map (\<lambda>i. js_toString (cell row i)) [0..<Suc depth])"

definition addition :: "jsval \<Rightarrow> jsval \<Rightarrow> jsval" where
  "addition a b =
     (if is_JStr (toPrimitive a) \<or> is_JStr (toPrimitive b)
      then JStr (js_toString (toPrimitive a) @ js_toString (toPrimitive b))
      else
        (case (toNumber_prim (toPrimitive a), toNumber_prim (toPrimitive b)) of
           (Some x, Some y) \<Rightarrow> JNum (x + y)
         | _ \<Rightarrow> JNaN))"

definition nodeValue :: "nat \<Rightarrow> jsval list \<Rightarrow> jsval" where
  "nodeValue depth ws =
     (if depth = 0 then foldl addition (JNum 0) ws else foldl addition (hd ws) (tl ws))"

definition aggregatedLevel ::
  "nat \<Rightarrow> nat \<Rightarrow> jsval list list \<Rightarrow> (string \<times> string \<times> string \<times> jsval) list" where
  "aggregatedLevel depth valueColumnIndex rows =
     map (\<lambda>key.
            (key,
             js_toString (cell (hd (filter (\<lambda>row. pathKey depth row = key) rows)) depth),
             (if depth = 0 then []
              else pathKey (depth - 1) (hd (filter (\<lambda>row. pathKey depth row = key) rows))),
             nodeValue depth
               (map (\<lambda>row. cell row valueColumnIndex)
                    (filter (\<lambda>row. pathKey depth row = key) rows))))
         (first_occurrences (map (pathKey depth) rows))"

definition hierarchy :: "nat \<Rightarrow> jsval list list \<Rightarrow> sunburstData" where
  "hierarchy valueColumnIndex rows =
     (let nodes = concat (map (\<lambda>depth. aggregatedLevel depth valueColumnIndex rows)
                              [0..<valueColumnIndex])
      in \<lparr>ids = map fst nodes,
          labels = map (\<lambda>(i, l, p, v). l) nodes,
          parents = map (\<lambda>(i, l, p, v). p) nodes,
          sb_values = map (\<lambda>(i, l, p, v). v) nodes\<rparr>)"

text \<open>
  The tables within the numbers of the model: every number in a cell is one of them, and
  so is every sum of weights, the magnitudes of the numeric weights adding up to at most
  \<open>2^53\<close>.
\<close>

definition magnitude :: "jsval \<Rightarrow> int" where
  "magnitude v = (case toNumber_prim (toPrimitive v) of Some n \<Rightarrow> \<bar>n\<bar> | None \<Rightarrow> 0)"

definition in_range :: "nat \<Rightarrow> jsval list list \<Rightarrow> bool" where
  "in_range valueColumnIndex rows =
     (list_all (list_all exact) rows
      \<and> sum_list (map (\<lambda>row. magnitude (cell row valueColumnIndex)) rows) \<le> 2 ^ 53)"

text \<open>
  The shape both loops share, used to reason about them: a row sets the entry of its key,
  to an initial value when the key is new and to an update of the old value otherwise.
  \<open>group_value\<close> is what the rows of one key accumulate to.
\<close>

definition group_step ::
  "('r \<Rightarrow> 'k) \<Rightarrow> ('r \<Rightarrow> 'v) \<Rightarrow> ('v \<Rightarrow> 'r \<Rightarrow> 'v) \<Rightarrow> ('k \<times> 'v) list \<Rightarrow> 'r \<Rightarrow> ('k \<times> 'v) list" where
  "group_step key init upd acc row =
     assoc_set acc (key row)
       (case map_of acc (key row) of None \<Rightarrow> init row | Some v \<Rightarrow> upd v row)"

definition group_value :: "('r \<Rightarrow> 'v) \<Rightarrow> ('v \<Rightarrow> 'r \<Rightarrow> 'v) \<Rightarrow> 'r list \<Rightarrow> 'v" where
  "group_value init upd rs = foldl upd (init (hd rs)) (tl rs)"

section \<open>Time charts: the sort in \<open>renderChart\<close>\<close>

text \<open>
  \<open>Date.parse\<close> and the conversion of a string to a number belong to the platform and
  are parameters (\<open>None\<close> is \<open>NaN\<close>). \<open>toNumber\<close> is the conversion applied by \<open>a - b\<close>;
  \<open>dateTime\<close> is \<open>new Date(v).getTime()\<close>, which parses a string and clips a number to
  the range of time values.
\<close>

definition toNumber :: "(string \<Rightarrow> int option) \<Rightarrow> jsval \<Rightarrow> int option" where
  "toNumber stringToNumber v =
     (case toPrimitive v of JStr s \<Rightarrow> stringToNumber s | p \<Rightarrow> toNumber_prim p)"

definition dateTime :: "(string \<Rightarrow> int option) \<Rightarrow> jsval \<Rightarrow> int option" where
  "dateTime Date_parse v =
     (case toPrimitive v of
        JStr s \<Rightarrow> Date_parse s
      | p \<Rightarrow>
          (case toNumber_prim p of
             Some n \<Rightarrow> if \<bar>n\<bar> \<le> 8640000000000000 then Some n else None
           | None \<Rightarrow> None))"

text \<open>The value of a comparator \<open>(a, b) => x - y\<close> as the sort uses it: \<open>NaN\<close> counts as 0.\<close>

definition difference :: "int option \<Rightarrow> int option \<Rightarrow> int" where
  "difference x y = (case (x, y) of (Some a, Some b) \<Rightarrow> a - b | _ \<Rightarrow> 0)"

text \<open>
  \<open>Array.prototype.sort\<close> with a comparator: a stable sort. For a comparator that is not
  a consistent order ECMAScript leaves the result to the implementation; the model then
  inserts the elements one by one from the left.
\<close>

fun js_insert :: "('a \<Rightarrow> 'a \<Rightarrow> int) \<Rightarrow> 'a \<Rightarrow> 'a list \<Rightarrow> 'a list" where
  "js_insert cmp x [] = [x]"
| "js_insert cmp x (y # ys) = (if cmp x y < 0 then x # y # ys else y # js_insert cmp x ys)"

definition js_sort :: "('a \<Rightarrow> 'a \<Rightarrow> int) \<Rightarrow> 'a list \<Rightarrow> 'a list" where
  "js_sort cmp xs = foldl (\<lambda>sorted x. js_insert cmp x sorted) [] xs"

text \<open>\<open>columns.find((col) => col.type === t)?.ordinal || 0\<close> (lines 262 to 265).\<close>

definition columnIndex :: "string \<Rightarrow> column list \<Rightarrow> nat" where
  "columnIndex t cols =
     (case find (\<lambda>col. col_type col = t) cols of Some col \<Rightarrow> ordinal col | None \<Rightarrow> 0)"

text \<open>
  \<open>sortedData\<close> after lines 261 to 278 of \<open>renderChart\<close>: the rows are sorted three
  times in place, each time by the cell at \<open>dateColumnIndex\<close>.
\<close>

definition sortedData ::
  "(string \<Rightarrow> int option) \<Rightarrow> (string \<Rightarrow> int option) \<Rightarrow> column list \<Rightarrow> jsval list list
   \<Rightarrow> jsval list list" where
  "sortedData Date_parse stringToNumber cols rows =
     (let dateColumnIndex = columnIndex ''datetime'' cols;
          timeColumnIndex = columnIndex ''timespan'' cols;
          hourColumnIndex = columnIndex ''real'' cols;
          sorted1 =
            (if 0 \<le> dateColumnIndex then
               js_sort (\<lambda>a b. difference (dateTime Date_parse (cell a dateColumnIndex))
                                        (dateTime Date_parse (cell b dateColumnIndex))) rows
             else rows);
          sorted2 =
            (if 0 \<le> timeColumnIndex then
               js_sort (\<lambda>a b. difference
                    (Date_parse (''0001-01-01T'' @ js_toString (cell a dateColumnIndex)))
                    (Date_parse (''0001-01-01T'' @ js_toString (cell b dateColumnIndex)))) sorted1
             else sorted1)
      in if 0 \<le> hourColumnIndex then
           js_sort (\<lambda>a b. difference (toNumber stringToNumber (cell a dateColumnIndex))
                                    (toNumber stringToNumber (cell b dateColumnIndex))) sorted2
         else sorted2)"

section \<open>Connection identity: the values and their canonical text\<close>

text \<open>
  The JSON text of an object whose properties are strings: \<open>member_text\<close> is one
  \<open>"key":"value"\<close> member, \<open>object_text\<close> the members between braces, separated by
  commas. \<open>string_members kvs K\<close> lists, in the order of the property list \<open>K\<close>, the
  properties of \<open>kvs\<close> whose value is a string, and \<open>string_object\<close> is the object
  with these properties. They describe what \<open>JSON.stringify\<close> writes and \<open>JSON.parse\<close>
  reads back in the proofs below.
\<close>

definition member_text :: "string \<times> string \<Rightarrow> string" where
  "member_text p = quote (fst p) @ '':'' @ quote (snd p)"

definition object_text :: "(string \<times> string) list \<Rightarrow> string" where
  "object_text ps = ''{'' @ intersperse '','' (map member_text ps) @ ''}''"

definition string_members :: "(string \<times> jsval) list \<Rightarrow> string list \<Rightarrow> (string \<times> string) list" where
  "string_members kvs K =
     concat (map (\<lambda>k. case map_of kvs k of Some (JStr s) \<Rightarrow> [(k, s)] | _ \<Rightarrow> []) K)"

definition string_object :: "(string \<times> string) list \<Rightarrow> (string \<times> jsval) list" where
  "string_object ps = map (\<lambda>p. (fst p, JStr (snd p))) ps"

text \<open>
  An object all of whose properties are strings or \<open>undefined\<close>, with distinct keys,
  well-formed text, and no key beyond the basic plane. \<open>has_string\<close> tells whether a key
  holds a string; \<open>canonical_members\<close> are the string properties in sorted key order.
\<close>

definition flat_object :: "(string \<times> jsval) list \<Rightarrow> bool" where
  "flat_object kvs =
     (distinct (map fst kvs)
      \<and> list_all (\<lambda>kv. utf8 (fst kv) \<and> list_all (\<lambda>c. (of_char c :: nat) < 240) (fst kv)
                        \<and> (case snd kv of JUndefined \<Rightarrow> True | JStr s \<Rightarrow> utf8 s | _ \<Rightarrow> False))
           kvs)"

definition has_string :: "(string \<times> jsval) list \<Rightarrow> string \<Rightarrow> bool" where
  "has_string kvs k = (case map_of kvs k of Some (JStr s) \<Rightarrow> True | _ \<Rightarrow> False)"

definition canonical_members :: "(string \<times> jsval) list \<Rightarrow> (string \<times> string) list" where
  "canonical_members kvs = string_members kvs (sort (map fst kvs))"

text \<open>
  \<open>IConnectionInfo\<close> (lines 4 to 22): an object with the fields of
  \<open>AzureAuthenticatedConnectionInfo\<close> (\<open>id\<close>, \<open>displayName\<close>, \<open>type: 'azAuth'\<close>,
  \<open>cluster\<close>, and \<open>database\<close>, which may be missing or \<open>undefined\<close>) or of
  \<open>AppInsightsConnectionInfo\<close> (\<open>id\<close>, \<open>displayName\<close>, \<open>type: 'appInsights'\<close>), in any
  insertion order.
\<close>

definition string_field :: "jsval \<Rightarrow> bool" where
  "string_field v = (case v of JStr s \<Rightarrow> utf8 s | _ \<Rightarrow> False)"

definition optional_string_field :: "jsval \<Rightarrow> bool" where
  "optional_string_field v = (case v of JStr s \<Rightarrow> utf8 s | JUndefined \<Rightarrow> True | _ \<Rightarrow> False)"

definition is_AzureAuthenticatedConnectionInfo :: "jsval \<Rightarrow> bool" where
  "is_AzureAuthenticatedConnectionInfo info =
     (case info of
        JObj kvs \<Rightarrow>
          distinct (map fst kvs)
          \<and> list_all (\<lambda>k. k \<in> set [''id'', ''displayName'', ''type'', ''cluster'', ''database''])
                (map fst kvs)
          \<and> string_field (js_get info ''id'')
          \<and> string_field (js_get info ''displayName'')
          \<and> js_get info ''type'' = JStr ''azAuth''
          \<and> string_field (js_get info ''cluster'')
          \<and> optional_string_field (js_get info ''database'')
      | _ \<Rightarrow> False)"

definition is_AppInsightsConnectionInfo :: "jsval \<Rightarrow> bool" where
  "is_AppInsightsConnectionInfo info =
     (case info of
        JObj kvs \<Rightarrow>
          distinct (map fst kvs)
          \<and> list_all (\<lambda>k. k \<in> set [''id'', ''displayName'', ''type'']) (map fst kvs)
          \<and> string_field (js_get info ''id'')
          \<and> string_field (js_get info ''displayName'')
          \<and> js_get info ''type'' = JStr ''appInsights''
      | _ \<Rightarrow> False)"

definition is_IConnectionInfo :: "jsval \<Rightarrow> bool" where
  "is_IConnectionInfo info =
     (is_AzureAuthenticatedConnectionInfo info \<or> is_AppInsightsConnectionInfo info)"

section \<open>The controller registry: \<open>onConnectionChanged\<close>\<close>

text \<open>
  \<open>a === b\<close>: \<open>NaN\<close> equals nothing; two objects are equal only when they are the same
  object, which the representation cannot tell (connection ids are strings).
\<close>

definition strict_equal :: "jsval \<Rightarrow> jsval \<Rightarrow> bool" where
  "strict_equal a b =
     (case a of JNaN \<Rightarrow> False | JArr xs \<Rightarrow> False | JObj kvs \<Rightarrow> False | _ \<Rightarrow> a = b)"

text \<open>\<open>getControllerId\<close> (lines 66 to 68).\<close>

definition getControllerId :: "jsval \<Rightarrow> string \<Rightarrow> error + string" where
  "getControllerId connection notebookType =
     (case encodeConnectionInfo connection of
        Inl e \<Rightarrow> Inl e
      | Inr token \<Rightarrow> Inr (notebookType @ ''_'' @ token))"

text \<open>
  A \<open>KernelPerConnection\<close>: its notebook type, its connection and the id of its
  \<open>notebookController\<close>. The state is the array \<open>registeredControllers\<close> and the
  controllers whose \<open>dispose()\<close> has run, which unregisters them from the host.
\<close>

record KernelPerConnection =
  notebookType :: string
  connection :: jsval
  notebookController_id :: string

record kernels =
  registeredControllers :: "KernelPerConnection list"
  disposed :: "KernelPerConnection list"

text \<open>
  The handler subscribed to \<open>onConnectionChanged\<close> (lines 35 to 48): \<open>indexOf\<close> and
  \<open>splice(index, 1)\<close> remove the first occurrence of the controller.
\<close>

definition onConnectionChanged :: "kernels \<Rightarrow> jsval \<times> string \<Rightarrow> kernels" where
  "onConnectionChanged st event =
     (case event of
        (removedConnection, change) \<Rightarrow>
          if change = ''added'' then st
          else
            foldl (\<lambda>s controllerToRemove.
                     \<lparr>registeredControllers =
                        remove1 controllerToRemove (registeredControllers s),
                      disposed = disposed s @ [controllerToRemove]\<rparr>)
                  st
                  (filter (\<lambda>controller.
                             strict_equal (js_get (connection controller) ''id'')
                                          (js_get removedConnection ''id''))
                          (registeredControllers st)))"

section \<open>Properties of the execution engine\<close>

lemma race_token_first:
  "tc \<le> te \<Longrightarrow> race (Some tc) (te, s) = Fulfilled None"
  by (simp add: race_def)

text \<open>
  Claim C1. When the cancellation token fires before the promise of the client's
  \<open>execute\<close> settles, \<open>executeCell\<close> leaves the cell with no output artifact and ends
  the task with \<open>success = false\<close> and the end timestamp of the \<open>finally\<close> block.
\<close>

theorem executeCell_cancelled_first:
  assumes "tc < te"
  shows "outputs (executeCell chartTypeOf old True now0 (Some tc) (te, s) now1) = []
       \<and> ended (executeCell chartTypeOf old True now0 (Some tc) (te, s) now1)
           = Some (False, Some now1)"
  using assms by (simp add: executeCell_def race_def)

theorem executeCell_cancelled_first_witness:
  "(1::nat) < 2
   \<and> outputs (executeCell (\<lambda>r. Some ''pie'') [ErrorOutput JNull JNull] True 10 (Some 1)
        (2, Fulfilled (Some \<lparr>tables = [], tableNames = [], primaryResults = Some []\<rparr>)) 20) = []
   \<and> ended (executeCell (\<lambda>r. Some ''pie'') [ErrorOutput JNull JNull] True 10 (Some 1)
        (2, Fulfilled (Some \<lparr>tables = [], tableNames = [], primaryResults = Some []\<rparr>)) 20)
       = Some (False, Some 20)"
proof -
  have h: "(1::nat) < 2" by simp
  show ?thesis
    using h executeCell_cancelled_first [OF h, of "\<lambda>r. Some ''pie''" "[ErrorOutput JNull JNull]" 10
        "Fulfilled (Some \<lparr>tables = [], tableNames = [], primaryResults = Some []\<rparr>)" 20]
    by simp
qed

text \<open>
  Claim C2, as the spec states it, fails: when \<open>response.data.error\<close> is present but
  carries neither \<open>@message\<close> nor \<open>message\<close>, the catch block keeps the default
  message and does not fall back to \<open>response.data.message\<close>.
\<close>

theorem executeCell_error_message_counterexample:
  "js_get (JObj [(''error'', JObj [(''code'', JStr ''E1'')]), (''message'', JStr ''bad request'')])
      ''message'' = JStr ''bad request''
   \<and> outputs (executeCell (\<lambda>r. None) [] True 10 None
        (5, Rejected (Some \<lparr>response = Some \<lparr>status = Some 400,
               data = JObj [(''error'', JObj [(''code'', JStr ''E1'')]),
                            (''message'', JStr ''bad request'')]\<rparr>,
             instanceofError = True, ex_name = JStr ''AxiosError'',
             ex_message = Some (JStr ''Request failed with status code 400''),
             innererror = JUndefined\<rparr>)) 20)
     = [ErrorOutput (JStr ''Invalid Query'') (JStr ''Failed to execute query'')]"
  by (simp add: executeCell_def race_def errorNameAndMessage_def statusErrorName_def
      responseErrorMessage_def js_or_def defaultErrorMessage_def)

text \<open>
  Claim C2, amended. Every failure thrown out of the query makes \<open>executeCell\<close> append
  exactly one error artifact \<open>{name, message}\<close> and end the task as not successful. When
  the failure carries a \<open>response\<close>, the name follows its status: 400 gives Invalid Query,
  401 and 403 Authentication Error, 408 and 504 Query Timeout, any other status from 500
  on Server Error. The message is then \<open>response.data.error['@message']\<close>, else
  \<open>response.data.error.message\<close>, else the default, when \<open>response.data.error\<close> is
  present; it is \<open>response.data.message\<close>, else the default, only when
  \<open>response.data.error\<close> is absent. The default message is not empty: with status 401
  and no \<open>response.data.error\<close> the name is Authentication Error and the message is not
  empty.
\<close>

theorem executeCell_classifies:
  assumes "\<forall>tc. cancelledAt = Some tc \<longrightarrow> te < tc"
  shows "\<exists>nm msg.
      outputs (executeCell chartTypeOf old True now0 cancelledAt (te, Rejected ex) now1)
        = [ErrorOutput nm msg]
    \<and> ended (executeCell chartTypeOf old True now0 cancelledAt (te, Rejected ex) now1)
        = Some (False, Some now1)
    \<and> (\<forall>e r. ex = Some e \<and> response e = Some r \<longrightarrow>
          (status r = Some 400 \<longrightarrow> nm = JStr ''Invalid Query'')
        \<and> (status r = Some 401 \<or> status r = Some 403 \<longrightarrow> nm = JStr ''Authentication Error'')
        \<and> (status r = Some 408 \<or> status r = Some 504 \<longrightarrow> nm = JStr ''Query Timeout'')
        \<and> (\<forall>n. status r = Some n \<and> 500 \<le> n \<and> n \<noteq> 504 \<longrightarrow> nm = JStr ''Server Error'')
        \<and> (truthy (js_get (data r) ''error'')
             \<and> truthy (js_get (js_get (data r) ''error'') ''@message'')
            \<longrightarrow> msg = js_get (js_get (data r) ''error'') ''@message'')
        \<and> (truthy (js_get (data r) ''error'')
             \<and> \<not> truthy (js_get (js_get (data r) ''error'') ''@message'')
             \<and> truthy (js_get (js_get (data r) ''error'') ''message'')
            \<longrightarrow> msg = js_get (js_get (data r) ''error'') ''message'')
        \<and> (truthy (js_get (data r) ''error'')
             \<and> \<not> truthy (js_get (js_get (data r) ''error'') ''@message'')
             \<and> \<not> truthy (js_get (js_get (data r) ''error'') ''message'')
            \<longrightarrow> msg = JStr defaultErrorMessage)
        \<and> (\<not> truthy (js_get (data r) ''error'') \<and> truthy (js_get (data r) ''message'')
            \<longrightarrow> msg = js_get (data r) ''message'')
        \<and> (\<not> truthy (js_get (data r) ''error'') \<and> \<not> truthy (js_get (data r) ''message'')
            \<longrightarrow> msg = JStr defaultErrorMessage)
        \<and> (status r = Some 401 \<and> \<not> truthy (js_get (data r) ''error'')
            \<longrightarrow> nm = JStr ''Authentication Error'' \<and> truthy msg))
    \<and> defaultErrorMessage \<noteq> []"
proof -
  let ?task = "executeCell chartTypeOf old True now0 cancelledAt (te, Rejected ex) now1"
  let ?nm = "fst (errorNameAndMessage ex)"
  let ?msg = "snd (errorNameAndMessage ex)"
  have r: "race cancelledAt (te, Rejected ex) = Rejected ex"
    using assms by (cases cancelledAt) (auto simp: race_def)
  have out: "outputs ?task = [ErrorOutput ?nm ?msg]"
    and en: "ended ?task = Some (False, Some now1)"
    using r by (simp_all add: executeCell_def)
  have classes: "\<forall>e r. ex = Some e \<and> response e = Some r \<longrightarrow>
          (status r = Some 400 \<longrightarrow> ?nm = JStr ''Invalid Query'')
        \<and> (status r = Some 401 \<or> status r = Some 403 \<longrightarrow> ?nm = JStr ''Authentication Error'')
        \<and> (status r = Some 408 \<or> status r = Some 504 \<longrightarrow> ?nm = JStr ''Query Timeout'')
        \<and> (\<forall>n. status r = Some n \<and> 500 \<le> n \<and> n \<noteq> 504 \<longrightarrow> ?nm = JStr ''Server Error'')
        \<and> (truthy (js_get (data r) ''error'')
             \<and> truthy (js_get (js_get (data r) ''error'') ''@message'')
            \<longrightarrow> ?msg = js_get (js_get (data r) ''error'') ''@message'')
        \<and> (truthy (js_get (data r) ''error'')
             \<and> \<not> truthy (js_get (js_get (data r) ''error'') ''@message'')
             \<and> truthy (js_get (js_get (data r) ''error'') ''message'')
            \<longrightarrow> ?msg = js_get (js_get (data r) ''error'') ''message'')
        \<and> (truthy (js_get (data r) ''error'')
             \<and> \<not> truthy (js_get (js_get (data r) ''error'') ''@message'')
             \<and> \<not> truthy (js_get (js_get (data r) ''error'') ''message'')
            \<longrightarrow> ?msg = JStr defaultErrorMessage)
        \<and> (\<not> truthy (js_get (data r) ''error'') \<and> truthy (js_get (data r) ''message'')
            \<longrightarrow> ?msg = js_get (data r) ''message'')
        \<and> (\<not> truthy (js_get (data r) ''error'') \<and> \<not> truthy (js_get (data r) ''message'')
            \<longrightarrow> ?msg = JStr defaultErrorMessage)
        \<and> (status r = Some 401 \<and> \<not> truthy (js_get (data r) ''error'')
            \<longrightarrow> ?nm = JStr ''Authentication Error'' \<and> truthy ?msg)"
  proof (intro allI impI)
    fix e r
    assume "ex = Some e \<and> response e = Some r"
    then have nm: "?nm = JStr (statusErrorName (status r))"
      and msg: "?msg = responseErrorMessage r"
      by (simp_all add: errorNameAndMessage_def)
    show "(status r = Some 400 \<longrightarrow> ?nm = JStr ''Invalid Query'')
        \<and> (status r = Some 401 \<or> status r = Some 403 \<longrightarrow> ?nm = JStr ''Authentication Error'')
        \<and> (status r = Some 408 \<or> status r = Some 504 \<longrightarrow> ?nm = JStr ''Query Timeout'')
        \<and> (\<forall>n. status r = Some n \<and> 500 \<le> n \<and> n \<noteq> 504 \<longrightarrow> ?nm = JStr ''Server Error'')
        \<and> (truthy (js_get (data r) ''error'')
             \<and> truthy (js_get (js_get (data r) ''error'') ''@message'')
            \<longrightarrow> ?msg = js_get (js_get (data r) ''error'') ''@message'')
        \<and> (truthy (js_get (data r) ''error'')
             \<and> \<not> truthy (js_get (js_get (data r) ''error'') ''@message'')
             \<and> truthy (js_get (js_get (data r) ''error'') ''message'')
            \<longrightarrow> ?msg = js_get (js_get (data r) ''error'') ''message'')
        \<and> (truthy (js_get (data r) ''error'')
             \<and> \<not> truthy (js_get (js_get (data r) ''error'') ''@message'')
             \<and> \<not> truthy (js_get (js_get (data r) ''error'') ''message'')
            \<longrightarrow> ?msg = JStr defaultErrorMessage)
        \<and> (\<not> truthy (js_get (data r) ''error'') \<and> truthy (js_get (data r) ''message'')
            \<longrightarrow> ?msg = js_get (data r) ''message'')
        \<and> (\<not> truthy (js_get (data r) ''error'') \<and> \<not> truthy (js_get (data r) ''message'')
            \<longrightarrow> ?msg = JStr defaultErrorMessage)
        \<and> (status r = Some 401 \<and> \<not> truthy (js_get (data r) ''error'')
            \<longrightarrow> ?nm = JStr ''Authentication Error'' \<and> truthy ?msg)"
      unfolding nm msg
      by (auto simp: statusErrorName_def responseErrorMessage_def js_or_def defaultErrorMessage_def)
  qed
  have dflt: "defaultErrorMessage \<noteq> []"
    by (simp add: defaultErrorMessage_def)
  show ?thesis
    by (rule exI [where x = ?nm], rule exI [where x = ?msg])
       (rule conjI [OF out conjI [OF en conjI [OF classes dflt]]])
qed

theorem executeCell_classifies_witness:
  "outputs (executeCell (\<lambda>r. None) [] True 10 None
      (5, Rejected (Some \<lparr>response = Some \<lparr>status = Some 401, data = JObj []\<rparr>,
           instanceofError = True, ex_name = JStr ''AxiosError'',
           ex_message = Some (JStr ''Request failed with status code 401''),
           innererror = JUndefined\<rparr>)) 20)
     = [ErrorOutput (JStr ''Authentication Error'') (JStr defaultErrorMessage)]
   \<and> defaultErrorMessage \<noteq> []"
proof -
  let ?r = "\<lparr>status = Some 401, data = JObj []\<rparr>"
  let ?e = "\<lparr>response = Some ?r,
           instanceofError = True, ex_name = JStr ''AxiosError'',
           ex_message = Some (JStr ''Request failed with status code 401''),
           innererror = JUndefined\<rparr>"
  let ?task = "executeCell (\<lambda>r. None) [] True 10 None (5, Rejected (Some ?e)) 20"
  have h: "\<forall>tc. (None :: nat option) = Some tc \<longrightarrow> (5::nat) < tc"
    by simp
  from executeCell_classifies [OF h, of "\<lambda>r. None" "[]" 10 "Some ?e" 20]
  obtain nm msg where out: "outputs ?task = [ErrorOutput nm msg]"
    and classes: "\<forall>e r. Some ?e = Some e \<and> response e = Some r \<longrightarrow>
          (status r = Some 400 \<longrightarrow> nm = JStr ''Invalid Query'')
        \<and> (status r = Some 401 \<or> status r = Some 403 \<longrightarrow> nm = JStr ''Authentication Error'')
        \<and> (status r = Some 408 \<or> status r = Some 504 \<longrightarrow> nm = JStr ''Query Timeout'')
        \<and> (\<forall>n. status r = Some n \<and> 500 \<le> n \<and> n \<noteq> 504 \<longrightarrow> nm = JStr ''Server Error'')
        \<and> (truthy (js_get (data r) ''error'')
             \<and> truthy (js_get (js_get (data r) ''error'') ''@message'')
            \<longrightarrow> msg = js_get (js_get (data r) ''error'') ''@message'')
        \<and> (truthy (js_get (data r) ''error'')
             \<and> \<not> truthy (js_get (js_get (data r) ''error'') ''@message'')
             \<and> truthy (js_get (js_get (data r) ''error'') ''message'')
            \<longrightarrow> msg = js_get (js_get (data r) ''error'') ''message'')
        \<and> (truthy (js_get (data r) ''error'')
             \<and> \<not> truthy (js_get (js_get (data r) ''error'') ''@message'')
             \<and> \<not> truthy (js_get (js_get (data r) ''error'') ''message'')
            \<longrightarrow> msg = JStr defaultErrorMessage)
        \<and> (\<not> truthy (js_get (data r) ''error'') \<and> truthy (js_get (data r) ''message'')
            \<longrightarrow> msg = js_get (data r) ''message'')
        \<and> (\<not> truthy (js_get (data r) ''error'') \<and> \<not> truthy (js_get (data r) ''message'')
            \<longrightarrow> msg = JStr defaultErrorMessage)
        \<and> (status r = Some 401 \<and> \<not> truthy (js_get (data r) ''error'')
            \<longrightarrow> nm = JStr ''Authentication Error'' \<and> truthy msg)"
    and dflt: "defaultErrorMessage \<noteq> []"
    by (elim exE conjE)
  have here: "Some ?e = Some ?e \<and> response ?e = Some ?r"
    by simp
  note at = classes [rule_format, OF here]
  have nm: "nm = JStr ''Authentication Error''"
    using at by simp
  have msg: "msg = JStr defaultErrorMessage"
    using at by simp
  show ?thesis
    using out dflt unfolding nm msg by simp
qed

text \<open>
  Claim C3, as the spec states it, fails: when \<open>primaryResults\<close> already holds a table,
  it is kept as it is, and a table named \<open>PrimaryResult\<close> is dropped from \<open>tables\<close>
  without reaching \<open>primaryResults\<close>.
\<close>

theorem normalizeResults_rows_lost_counterexample:
  "normalizeResults
     \<lparr>tables = [\<lparr>name = ''Summary'', columns = [], body = KustoRows [[JNum 1]]\<rparr>,
                \<lparr>name = ''PrimaryResult'', columns = [], body = KustoRows [[JNum 2]]\<rparr>],
      tableNames = [''Summary'', ''PrimaryResult''],
      primaryResults = Some [\<lparr>name = ''Summary'', columns = [], body = KustoRows [[JNum 1]]\<rparr>]\<rparr>
   = \<lparr>tables = [\<lparr>name = ''Summary'', columns = [], body = KustoRows [[JNum 1]]\<rparr>],
      tableNames = [''Summary''],
      primaryResults = Some [\<lparr>name = ''Summary'', columns = [], body = KustoRows [[JNum 1]]\<rparr>]\<rparr>"
  by (simp add: normalizeResults_def)

text \<open>
  Claim C3, amended. On the success path \<open>executeCell\<close> appends one artifact carrying the
  normalized response: no table named \<open>PrimaryResult\<close> is left in \<open>tables\<close>, the name
  is gone from \<open>tableNames\<close>, and when \<open>primaryResults\<close> was not an array or was empty,
  \<open>primaryResults\<close> is made of exactly the tables that were named \<open>PrimaryResult\<close>;
  when it held a table already, it is left as it was.
\<close>

theorem executeCell_normalizes:
  assumes "\<forall>tc. cancelledAt = Some tc \<longrightarrow> te < tc"
  shows "\<exists>mime r'.
      outputs (executeCell chartTypeOf old True now0 cancelledAt (te, Fulfilled (Some r)) now1)
        = [ResultOutput mime r']
    \<and> (\<forall>t \<in> set (tables r'). name t \<noteq> ''PrimaryResult'')
    \<and> ''PrimaryResult'' \<notin> set (tableNames r')
    \<and> (primaryResults r = None \<or> primaryResults r = Some [] \<longrightarrow>
         primaryResults r' = Some (filter (\<lambda>t. name t = ''PrimaryResult'') (tables r)))
    \<and> (\<forall>ps. primaryResults r = Some ps \<and> ps \<noteq> [] \<longrightarrow> primaryResults r' = Some ps)"
proof -
  have rc: "race cancelledAt (te, Fulfilled (Some r)) = Fulfilled (Some r)"
    using assms by (cases cancelledAt) (auto simp: race_def)
  have nc: "\<not> isCancellationRequested cancelledAt (te, Fulfilled (Some r))"
    using assms by (cases cancelledAt) (auto simp: isCancellationRequested_def)
  have out: "\<exists>mime.
      outputs (executeCell chartTypeOf old True now0 cancelledAt (te, Fulfilled (Some r)) now1)
        = [ResultOutput mime (normalizeResults r)]"
    using rc nc by (simp add: executeCell_def Let_def)
  have t: "\<forall>t \<in> set (tables (normalizeResults r)). name t \<noteq> ''PrimaryResult''"
    by (simp add: normalizeResults_def Let_def)
  have n: "''PrimaryResult'' \<notin> set (tableNames (normalizeResults r))"
    by (simp add: normalizeResults_def Let_def)
  have p1: "primaryResults r = None \<or> primaryResults r = Some [] \<longrightarrow>
      primaryResults (normalizeResults r)
        = Some (filter (\<lambda>t. name t = ''PrimaryResult'') (tables r))"
    by (auto simp: normalizeResults_def Let_def)
  have p2: "\<forall>ps. primaryResults r = Some ps \<and> ps \<noteq> [] \<longrightarrow>
      primaryResults (normalizeResults r) = Some ps"
    by (auto simp: normalizeResults_def Let_def)
  from out obtain mime where
    "outputs (executeCell chartTypeOf old True now0 cancelledAt (te, Fulfilled (Some r)) now1)
        = [ResultOutput mime (normalizeResults r)]" ..
  with t n p1 p2 show ?thesis by blast
qed

theorem executeCell_normalizes_witness:
  "\<exists>mime r'.
      outputs (executeCell (\<lambda>r. None) [] True 10 None
        (5, Fulfilled (Some
           \<lparr>tables = [\<lparr>name = ''PrimaryResult'', columns = [], body = KustoRows [[JNum 2]]\<rparr>],
            tableNames = [''PrimaryResult''], primaryResults = Some []\<rparr>)) 20)
        = [ResultOutput mime r']
    \<and> tables r' = [] \<and> tableNames r' = []
    \<and> primaryResults r'
        = Some [\<lparr>name = ''PrimaryResult'', columns = [], body = KustoRows [[JNum 2]]\<rparr>]"
proof -
  have h: "\<forall>tc. (None :: nat option) = Some tc \<longrightarrow> (5::nat) < tc"
    by simp
  show ?thesis
    using executeCell_normalizes [OF h, of "\<lambda>r. None" "[]" 10
        "\<lparr>tables = [\<lparr>name = ''PrimaryResult'', columns = [], body = KustoRows [[JNum 2]]\<rparr>],
          tableNames = [''PrimaryResult''], primaryResults = Some []\<rparr>" 20]
    by (simp add: executeCell_def race_def isCancellationRequested_def normalizeResults_def)
qed

section \<open>Properties of the visualization inference\<close>

text \<open>
  Claim C6, as the spec states it, fails: a first row whose ordinal-2 cell is the chart
  metadata of a pie chart yields no chart when ordinal 1 is not \<open>Visualization\<close> and
  ordinal 0 is not a string containing it.
\<close>

theorem getChartType_unguarded_counterexample:
  \<open>getChartType
     \<lparr>tables = [\<lparr>name = ''@ExtendedProperties'', columns = [],
                  body = KustoRows [[JNum 1, JStr ''Other'',
                    JStr ''{"Visualization":"piechart","Title":"T"}'']]\<rparr>],
      tableNames = [''@ExtendedProperties''], primaryResults = Some []\<rparr>
   = Inr None\<close>
  by (simp add: getChartType_def tableRows_def cell_def)

text \<open>
  Claim C6, amended. For a response holding an \<open>@ExtendedProperties\<close> table whose first
  row has \<open>Visualization\<close> at ordinal 1 or a string containing \<open>Visualization\<close> at
  ordinal 0, \<open>getChartType\<close> parses the ordinal-2 cell as JSON first and falls back to
  ordinal 0 when that fails or gives a falsy value, then maps the \<open>Visualization\<close> field:
  piechart to pie, barchart to a horizontal bar, columnchart to a vertical bar, timechart
  or linechart to time, anything else (or metadata that does not parse) to none; the title
  is the \<open>Title\<close> field, the empty string when it is absent.
\<close>

theorem getChartType_metadata:
  assumes "find (\<lambda>item. name item = ''@ExtendedProperties'') (tables results) = Some t"
    and "tableRows t = row # rest"
    and "cell row 1 = JStr ''Visualization''
         \<or> (\<exists>s. cell row 0 = JStr s \<and> js_includes s ''Visualization'')"
  shows "(\<forall>v. JSON_parse_value (cell row 2) = Inr v \<and> truthy v
            \<longrightarrow> getChartType results = Inr (chartOfMetadata v))
    \<and> (\<forall>v. (JSON_parse_value (cell row 2) = Inl SyntaxError
              \<or> (\<exists>u. JSON_parse_value (cell row 2) = Inr u \<and> \<not> truthy u))
            \<and> JSON_parse_value (cell row 0) = Inr v \<and> truthy v
            \<longrightarrow> getChartType results = Inr (chartOfMetadata v))
    \<and> ((JSON_parse_value (cell row 2) = Inl SyntaxError
              \<or> (\<exists>u. JSON_parse_value (cell row 2) = Inr u \<and> \<not> truthy u))
            \<and> (JSON_parse_value (cell row 0) = Inl SyntaxError
              \<or> (\<exists>u. JSON_parse_value (cell row 0) = Inr u \<and> \<not> truthy u))
            \<longrightarrow> getChartType results = Inr None)
    \<and> (\<forall>d. js_get d ''Visualization'' = JStr ''piechart''
            \<longrightarrow> chartOfMetadata d = Some (Pie (js_or (js_get d ''Title'') (JStr []))))
    \<and> (\<forall>d. js_get d ''Visualization'' = JStr ''barchart''
            \<longrightarrow> chartOfMetadata d = Some (Bar (js_or (js_get d ''Title'') (JStr [])) Horizontal))
    \<and> (\<forall>d. js_get d ''Visualization'' = JStr ''columnchart''
            \<longrightarrow> chartOfMetadata d = Some (Bar (js_or (js_get d ''Title'') (JStr [])) Vertical))
    \<and> (\<forall>d. js_get d ''Visualization'' = JStr ''timechart''
              \<or> js_get d ''Visualization'' = JStr ''linechart''
            \<longrightarrow> chartOfMetadata d = Some (Time (js_or (js_get d ''Title'') (JStr []))))
    \<and> (\<forall>d. js_get d ''Visualization'' \<notin> {JStr ''piechart'', JStr ''barchart'',
                JStr ''columnchart'', JStr ''timechart'', JStr ''linechart''}
            \<longrightarrow> chartOfMetadata d = None)
    \<and> (\<forall>d. js_get d ''Title'' = JUndefined \<longrightarrow> js_or (js_get d ''Title'') (JStr []) = JStr [])"
proof -
  have ne: "tables results \<noteq> []"
    using assms(1) by auto
  have g: "\<not> (cell row 1 \<noteq> JStr ''Visualization''
      \<and> (case cell row 0 of JStr s \<Rightarrow> \<not> js_includes s ''Visualization'' | _ \<Rightarrow> True))"
    using assms(3) by auto
  have unfold: "getChartType results =
      (if JSON_parse_value (cell row 2) = Inl Unmodelled then Inl Unmodelled
       else
         (let data = (case JSON_parse_value (cell row 2) of Inr v \<Rightarrow> v | Inl e \<Rightarrow> JUndefined)
          in if truthy data then Inr (chartOfMetadata data)
             else
               (case JSON_parse_value (cell row 0) of
                  Inl e \<Rightarrow> if e = Unmodelled then Inl Unmodelled else Inr None
                | Inr v \<Rightarrow> if truthy v then Inr (chartOfMetadata v) else Inr None)))"
    using ne assms(1,2) g by (auto simp: getChartType_def Let_def)
  have c1: "\<forall>v. JSON_parse_value (cell row 2) = Inr v \<and> truthy v
            \<longrightarrow> getChartType results = Inr (chartOfMetadata v)"
    by (simp add: unfold)
  have c2: "\<forall>v. (JSON_parse_value (cell row 2) = Inl SyntaxError
              \<or> (\<exists>u. JSON_parse_value (cell row 2) = Inr u \<and> \<not> truthy u))
            \<and> JSON_parse_value (cell row 0) = Inr v \<and> truthy v
            \<longrightarrow> getChartType results = Inr (chartOfMetadata v)"
    by (auto simp: unfold)
  have c3: "(JSON_parse_value (cell row 2) = Inl SyntaxError
              \<or> (\<exists>u. JSON_parse_value (cell row 2) = Inr u \<and> \<not> truthy u))
            \<and> (JSON_parse_value (cell row 0) = Inl SyntaxError
              \<or> (\<exists>u. JSON_parse_value (cell row 0) = Inr u \<and> \<not> truthy u))
            \<longrightarrow> getChartType results = Inr None"
    by (auto simp: unfold)
  have m: "(\<forall>d. js_get d ''Visualization'' = JStr ''piechart''
            \<longrightarrow> chartOfMetadata d = Some (Pie (js_or (js_get d ''Title'') (JStr []))))
    \<and> (\<forall>d. js_get d ''Visualization'' = JStr ''barchart''
            \<longrightarrow> chartOfMetadata d = Some (Bar (js_or (js_get d ''Title'') (JStr [])) Horizontal))
    \<and> (\<forall>d. js_get d ''Visualization'' = JStr ''columnchart''
            \<longrightarrow> chartOfMetadata d = Some (Bar (js_or (js_get d ''Title'') (JStr [])) Vertical))
    \<and> (\<forall>d. js_get d ''Visualization'' = JStr ''timechart''
              \<or> js_get d ''Visualization'' = JStr ''linechart''
            \<longrightarrow> chartOfMetadata d = Some (Time (js_or (js_get d ''Title'') (JStr []))))
    \<and> (\<forall>d. js_get d ''Visualization'' \<notin> {JStr ''piechart'', JStr ''barchart'',
                JStr ''columnchart'', JStr ''timechart'', JStr ''linechart''}
            \<longrightarrow> chartOfMetadata d = None)"
    by (simp add: chartOfMetadata_def)
  have ti: "\<forall>d. js_get d ''Title'' = JUndefined
      \<longrightarrow> js_or (js_get d ''Title'') (JStr []) = JStr []"
    by (simp add: js_or_def)
  from c1 c2 c3 m ti show ?thesis by blast
qed

theorem getChartType_metadata_witness:
  \<open>getChartType
     \<lparr>tables = [\<lparr>name = ''@ExtendedProperties'', columns = [],
                  body = KustoRows [[JNum 1, JStr ''Visualization'',
                    JStr ''{"Visualization":"piechart","Title":"T"}'']]\<rparr>],
      tableNames = [''@ExtendedProperties''], primaryResults = Some []\<rparr>
   = Inr (Some (Pie (JStr ''T'')))\<close>
proof -
  let ?row = \<open>[JNum 1, JStr ''Visualization'', JStr ''{"Visualization":"piechart","Title":"T"}'']\<close>
  let ?t = "\<lparr>name = ''@ExtendedProperties'', columns = [], body = KustoRows [?row]\<rparr>"
  let ?results = "\<lparr>tables = [?t], tableNames = [''@ExtendedProperties''], primaryResults = Some []\<rparr>"
  let ?d = "JObj [(''Visualization'', JStr ''piechart''), (''Title'', JStr ''T'')]"
  have h1: "find (\<lambda>item. name item = ''@ExtendedProperties'') (tables ?results) = Some ?t"
    by simp
  have h2: "tableRows ?t = ?row # []"
    by (simp add: tableRows_def)
  have h3: "cell ?row 1 = JStr ''Visualization''
         \<or> (\<exists>s. cell ?row 0 = JStr s \<and> js_includes s ''Visualization'')"
    by (simp add: cell_def)
  have p: "JSON_parse_value (cell ?row 2) = Inr ?d"
    by code_simp
  have t: "truthy ?d"
    by simp
  have c: "chartOfMetadata ?d = Some (Pie (JStr ''T''))"
    by (simp add: chartOfMetadata_def js_or_def)
  show ?thesis
    using getChartType_metadata [OF h1 h2 h3] p t c by simp
qed

text \<open>
  Claim C10. When the first row of \<open>@ExtendedProperties\<close> has neither \<open>Visualization\<close>
  at ordinal 1 nor a string containing \<open>Visualization\<close> at ordinal 0, \<open>getChartType\<close>
  returns no chart decision, whatever sits at ordinal 2.
\<close>

theorem getChartType_guard:
  assumes "find (\<lambda>item. name item = ''@ExtendedProperties'') (tables results) = Some t"
    and "tableRows t = row # rest"
    and "cell row 1 \<noteq> JStr ''Visualization''"
    and "\<forall>s. cell row 0 = JStr s \<longrightarrow> \<not> js_includes s ''Visualization''"
  shows "getChartType results = Inr None"
proof -
  have ne: "tables results \<noteq> []"
    using assms(1) by auto
  have g: "(case cell row 0 of JStr s \<Rightarrow> \<not> js_includes s ''Visualization'' | _ \<Rightarrow> True)"
    using assms(4) by (cases "cell row 0") auto
  show ?thesis
    using ne assms(1,2,3) g by (simp add: getChartType_def)
qed

theorem getChartType_guard_witness:
  \<open>JSON_parse_value (JStr ''{"Visualization":"barchart","Title":"B"}'')
     = Inr (JObj [(''Visualization'', JStr ''barchart''), (''Title'', JStr ''B'')])
   \<and> getChartType
     \<lparr>tables = [\<lparr>name = ''@ExtendedProperties'', columns = [],
                  body = PlainArrays [[JNum 7, JNull,
                    JStr ''{"Visualization":"barchart","Title":"B"}'']]\<rparr>],
      tableNames = [''@ExtendedProperties''], primaryResults = Some []\<rparr>
   = Inr None\<close>
proof -
  let ?row = \<open>[JNum 7, JNull, JStr ''{"Visualization":"barchart","Title":"B"}'']\<close>
  let ?t = "\<lparr>name = ''@ExtendedProperties'', columns = [], body = PlainArrays [?row]\<rparr>"
  let ?results = "\<lparr>tables = [?t], tableNames = [''@ExtendedProperties''], primaryResults = Some []\<rparr>"
  have h1: "find (\<lambda>item. name item = ''@ExtendedProperties'') (tables ?results) = Some ?t"
    by simp
  have h2: "tableRows ?t = ?row # []"
    by (simp add: tableRows_def)
  have h3: "cell ?row 1 \<noteq> JStr ''Visualization''"
    by (simp add: cell_def)
  have h4: "\<forall>s. cell ?row 0 = JStr s \<longrightarrow> \<not> js_includes s ''Visualization''"
    by (simp add: cell_def)
  have p: \<open>JSON_parse_value (JStr ''{"Visualization":"barchart","Title":"B"}'')
     = Inr (JObj [(''Visualization'', JStr ''barchart''), (''Title'', JStr ''B'')])\<close>
    by code_simp
  show ?thesis
    using getChartType_guard [OF h1 h2 h3 h4] p by simp
qed

section \<open>Properties of the hierarchy aggregation\<close>

lemma sequence_pure:
  "(\<And>x. x \<in> set xs \<Longrightarrow> f x = Inr (g x)) \<Longrightarrow> sequence (map f xs) = Inr (map g xs)"
  by (induction xs) auto

lemma sequence_guarded:
  "(\<And>x. x \<in> set xs \<Longrightarrow> f x = (if P x then Inl e else Inr (g x))) \<Longrightarrow>
   sequence (map f xs) = (if \<exists>x \<in> set xs. P x then Inl e else Inr (map g xs))"
  by (induction xs) auto

lemma fold_rows_guarded:
  assumes bad: "\<And>s r rest. Inv s (r # rest) \<Longrightarrow> bad r \<Longrightarrow> f s r = Inl e"
    and good: "\<And>s r rest. Inv s (r # rest) \<Longrightarrow> \<not> bad r \<Longrightarrow> f s r = Inr (g s r) \<and> Inv (g s r) rest"
    and inv: "Inv s rows"
  shows "fold_rows f rows s = (if \<exists>r \<in> set rows. bad r then Inl e else Inr (foldl g s rows))"
  using inv
proof (induction rows arbitrary: s)
  case Nil
  show ?case by simp
next
  case (Cons r rest)
  show ?case
  proof (cases "bad r")
    case True
    then show ?thesis
      using bad [OF Cons.prems] by simp
  next
    case False
    from good [OF Cons.prems False]
    have step: "f s r = Inr (g s r)" and inv': "Inv (g s r) rest"
      by simp_all
    show ?thesis
      using Cons.IH [OF inv'] step False by simp
  qed
qed

lemma first_occurrences_snoc:
  "first_occurrences (xs @ [x]) =
     (if x \<in> set xs then first_occurrences xs else first_occurrences xs @ [x])"
  by (simp add: first_occurrences_def)

lemma set_first_occurrences [simp]: "set (first_occurrences xs) = set xs"
  by (simp add: first_occurrences_def)

lemma distinct_first_occurrences [simp]: "distinct (first_occurrences xs)"
  by (simp add: first_occurrences_def)

lemma map_of_keyed:
  "map_of (map (\<lambda>k. (k, f k)) ks) k = (if k \<in> set ks then Some (f k) else None)"
  by (induction ks) auto

lemma assoc_set_new:
  "k \<notin> fst ` set kvs \<Longrightarrow> assoc_set kvs k v = kvs @ [(k, v)]"
  by (induction kvs) auto

lemma assoc_set_keyed:
  "k \<in> set ks \<Longrightarrow> distinct ks \<Longrightarrow>
   assoc_set (map (\<lambda>k'. (k', f k')) ks) k v = map (\<lambda>k'. (k', if k' = k then v else f k')) ks"
  by (induction ks) auto

lemma assoc_set_entries: "set (assoc_set kvs k v) \<subseteq> insert (k, v) (set kvs)"
  by (induction kvs) (auto split: if_splits)

lemma group_value_snoc:
  "rs \<noteq> [] \<Longrightarrow> group_value init upd (rs @ [r]) = upd (group_value init upd rs) r"
  by (cases rs) (simp_all add: group_value_def)

lemma group_value_single: "group_value init upd [r] = init r"
  by (simp add: group_value_def)

lemma filter_key_absent:
  "k \<notin> set (map key rows) \<Longrightarrow> filter (\<lambda>x. key x = k) rows = []"
  by (induction rows) auto

lemma foldl_group_step:
  "foldl (group_step key init upd) [] rows =
     map (\<lambda>k. (k, group_value init upd (filter (\<lambda>r. key r = k) rows)))
         (first_occurrences (map key rows))"
proof (induction rows rule: rev_induct)
  case Nil
  show ?case by (simp add: first_occurrences_def)
next
  case (snoc r rows)
  let ?G = "\<lambda>rs k. group_value init upd (filter (\<lambda>r. key r = k) rs)"
  let ?ks = "first_occurrences (map key rows)"
  have acc: "foldl (group_step key init upd) [] (rows @ [r])
      = group_step key init upd (map (\<lambda>k. (k, ?G rows k)) ?ks) r"
    using snoc.IH by simp
  show ?case
  proof (cases "key r \<in> set (map key rows)")
    case True
    then have mem: "key r \<in> set ?ks" by simp
    have ne: "filter (\<lambda>x. key x = key r) rows \<noteq> []"
      using True by (auto simp: filter_empty_conv)
    have step: "group_step key init upd (map (\<lambda>k. (k, ?G rows k)) ?ks) r
        = map (\<lambda>k. (k, if k = key r then upd (?G rows (key r)) r else ?G rows k)) ?ks"
      using mem by (simp add: group_step_def map_of_keyed assoc_set_keyed)
    have vals: "\<And>k. (if k = key r then upd (?G rows (key r)) r else ?G rows k)
        = ?G (rows @ [r]) k"
      using ne by (auto simp: group_value_snoc)
    have fo: "first_occurrences (map key (rows @ [r])) = ?ks"
      using True by (simp add: first_occurrences_snoc)
    show ?thesis
      unfolding acc step fo using vals by simp
  next
    case False
    then have nmem: "key r \<notin> set ?ks" by simp
    have emp: "filter (\<lambda>x. key x = key r) rows = []"
      using False by (rule filter_key_absent)
    have fresh: "key r \<notin> fst ` set (map (\<lambda>k. (k, ?G rows k)) ?ks)"
      using nmem by (auto simp: image_iff)
    have step: "group_step key init upd (map (\<lambda>k. (k, ?G rows k)) ?ks) r
        = map (\<lambda>k. (k, ?G rows k)) ?ks @ [(key r, init r)]"
      using nmem fresh by (simp add: group_step_def map_of_keyed assoc_set_new)
    have old: "\<And>k. k \<in> set ?ks \<Longrightarrow> ?G (rows @ [r]) k = ?G rows k"
      using nmem by auto
    have new: "?G (rows @ [r]) (key r) = init r"
      using emp by (simp add: group_value_single)
    have fo: "first_occurrences (map key (rows @ [r])) = ?ks @ [key r]"
      using False by (simp add: first_occurrences_snoc)
    show ?thesis
      unfolding acc step fo using old new by simp
  qed
qed

lemma intersperse_snoc:
  "xs \<noteq> [] \<Longrightarrow> intersperse sep (xs @ [x]) = intersperse sep xs @ sep @ x"
  by (induction sep xs rule: intersperse.induct) auto

lemma pathKey_0: "pathKey 0 row = js_toString (cell row 0)"
  by (simp add: pathKey_def)

lemma pathKey_Suc:
  "pathKey (Suc k) row = pathKey k row @ ''-'' @ js_toString (cell row (Suc k))"
proof -
  let ?xs = "map (\<lambda>i. js_toString (cell row i)) [0..<Suc k]"
  have ne: "?xs \<noteq> []"
    by simp
  have "pathKey (Suc k) row = intersperse ''-'' (?xs @ [js_toString (cell row (Suc k))])"
    by (simp add: pathKey_def)
  also have "\<dots> = intersperse ''-'' ?xs @ ''-'' @ js_toString (cell row (Suc k))"
    using ne by (rule intersperse_snoc)
  finally show ?thesis
    by (simp add: pathKey_def)
qed

lemma filter_key_present:
  "k \<in> set (map key rows) \<Longrightarrow> filter (\<lambda>r. key r = k) rows \<noteq> []"
  by (induction rows) auto

lemma hd_filter_key:
  "k \<in> set (map key rows) \<Longrightarrow> key (hd (filter (\<lambda>r. key r = k) rows)) = k"
  by (induction rows) auto

subsection \<open>Additions within the numbers of the model\<close>

lemma magnitude_nonneg: "0 \<le> magnitude v"
  by (simp add: magnitude_def split: option.splits)

lemma exact_cell: "list_all exact row \<Longrightarrow> exact (cell row i)"
  by (simp add: cell_def list_all_length)

lemma addition_defined: "addition a b \<noteq> JNull \<and> addition a b \<noteq> JUndefined"
  by (simp add: addition_def split: option.splits)

lemma js_plus_in_range:
  assumes "exact a" and "exact b" and "magnitude a + magnitude b \<le> 2 ^ 53"
  shows "js_plus a b = Inr (addition a b)"
    and "exact (addition a b)"
    and "magnitude (addition a b) \<le> magnitude a + magnitude b"
proof -
  show "js_plus a b = Inr (addition a b)"
    using assms
    by (auto simp: js_plus_def addition_def magnitude_def safe_def split: option.splits)
  show "exact (addition a b)"
    using assms
    by (auto simp: addition_def magnitude_def safe_def split: option.splits)
  show "magnitude (addition a b) \<le> magnitude a + magnitude b"
    using magnitude_nonneg [of a] magnitude_nonneg [of b]
    by (auto simp: addition_def magnitude_def toPrimitive_def toNumber_prim_def
        split: option.splits)
qed

lemma addition_nums: "addition (JNum a) (JNum b) = JNum (a + b)"
  by (simp add: addition_def toPrimitive_def is_JStr_def toNumber_prim_def)

lemma foldl_addition_nums:
  "foldl addition (JNum a) (map JNum ws) = JNum (a + sum_list ws)"
  by (induction ws arbitrary: a) (simp_all add: addition_nums add.assoc)

lemma nodeValue_nums:
  "ws \<noteq> [] \<Longrightarrow> nodeValue depth (map JNum ws) = JNum (sum_list ws)"
  by (cases ws) (simp_all add: nodeValue_def foldl_addition_nums addition_nums)

lemma js_plus_budget:
  assumes "exact a" and "exact b" and "0 \<le> B" and "magnitude a + (magnitude b + B) \<le> 2 ^ 53"
  shows "js_plus a b = Inr (addition a b)"
    and "exact (addition a b)"
    and "magnitude (addition a b) + B \<le> 2 ^ 53"
proof -
  have le: "magnitude a + magnitude b \<le> 2 ^ 53"
    using assms(3,4) by simp
  show "js_plus a b = Inr (addition a b)"
    using assms(1,2) le by (rule js_plus_in_range)
  show "exact (addition a b)"
    using assms(1,2) le by (rule js_plus_in_range)
  have "magnitude (addition a b) \<le> magnitude a + magnitude b"
    using assms(1,2) le by (rule js_plus_in_range)
  then show "magnitude (addition a b) + B \<le> 2 ^ 53"
    using assms(4) by simp
qed

lemma budget_nonneg: "0 \<le> sum_list (map (\<lambda>row. magnitude (cell row vi)) rows)"
  by (rule sum_list_nonneg) (auto simp: magnitude_nonneg)

lemma toString_method_exact:
  "exact v \<Longrightarrow>
   toString_method v = (if v = JNull \<or> v = JUndefined then Inl TypeError else Inr (js_toString v))"
  by (simp add: toString_method_def)

lemma ex_le_Suc:
  "(\<exists>i \<le> Suc k. P i) = ((\<exists>i \<in> set [0..<Suc k]. P i) \<or> P (Suc k))"
proof -
  have "(\<exists>i \<le> Suc k. P i) = ((\<exists>i \<le> k. P i) \<or> P (Suc k))"
    by (auto simp: le_Suc_eq)
  also have "(\<exists>i \<le> k. P i) = (\<exists>i \<in> set [0..<Suc k]. P i)"
    by (auto simp del: upt_Suc simp: less_Suc_eq_le)
  finally show ?thesis .
qed

lemma rootStep_cases:
  assumes "list_all exact row"
  shows "rootStep vi s row =
     (if cell row 0 = JNull \<or> cell row 0 = JUndefined then Inl TypeError
      else (case js_plus
                   (case map_of s (pathKey 0 row) of
                      None \<Rightarrow> JNum 0
                    | Some v \<Rightarrow> if v = JNull \<or> v = JUndefined then JNum 0 else v)
                   (cell row vi) of
              Inl e \<Rightarrow> Inl e
            | Inr added \<Rightarrow> Inr (assoc_set s (pathKey 0 row) added)))"
  unfolding pathKey_0 using exact_cell [OF assms, of 0]
  by (simp add: rootStep_def toString_method_exact)

lemma levelStep_cases:
  assumes "list_all exact row"
  shows "levelStep (Suc k) vi s row =
     (if \<exists>i \<le> Suc k. cell row i = JNull \<or> cell row i = JUndefined then Inl TypeError
      else (case map_of s (pathKey (Suc k) row) of
              Some (v, l, p) \<Rightarrow>
                (case js_plus v (cell row vi) of
                   Inl e \<Rightarrow> Inl e
                 | Inr added \<Rightarrow> Inr (assoc_set s (pathKey (Suc k) row) (added, l, p)))
            | None \<Rightarrow>
                Inr (assoc_set s (pathKey (Suc k) row)
                       (cell row vi, js_toString (cell row (Suc k)), pathKey k row))))"
proof -
  have parts: "sequence (map (\<lambda>i. toString_method (cell row i)) [0..<Suc k])
      = (if \<exists>i \<in> set [0..<Suc k]. cell row i = JNull \<or> cell row i = JUndefined
         then Inl TypeError
         else Inr (map (\<lambda>i. js_toString (cell row i)) [0..<Suc k]))"
    by (rule sequence_guarded) (simp add: toString_method_exact exact_cell [OF assms])
  have lab: "toString_method (cell row (Suc k))
      = (if cell row (Suc k) = JNull \<or> cell row (Suc k) = JUndefined then Inl TypeError
         else Inr (js_toString (cell row (Suc k))))"
    by (simp add: toString_method_exact exact_cell [OF assms])
  have parent: "intersperse ''-'' (map (\<lambda>i. js_toString (cell row i)) [0..<Suc k]) = pathKey k row"
    by (simp add: pathKey_def)
  have split: "(\<exists>i \<le> Suc k. cell row i = JNull \<or> cell row i = JUndefined)
      = ((\<exists>i \<in> set [0..<Suc k]. cell row i = JNull \<or> cell row i = JUndefined)
         \<or> cell row (Suc k) = JNull \<or> cell row (Suc k) = JUndefined)"
    by (rule ex_le_Suc)
  show ?thesis
  proof (cases "\<exists>i \<in> set [0..<Suc k]. cell row i = JNull \<or> cell row i = JUndefined")
    case True
    then have "sequence (map (\<lambda>i. toString_method (cell row i)) [0..<Suc k]) = Inl TypeError"
      unfolding parts by simp
    then show ?thesis
      unfolding levelStep_def split using True by simp
  next
    case False
    then have seq: "sequence (map (\<lambda>i. toString_method (cell row i)) [0..<Suc k])
        = Inr (map (\<lambda>i. js_toString (cell row i)) [0..<Suc k])"
      unfolding parts by simp
    show ?thesis
    proof (cases "cell row (Suc k) = JNull \<or> cell row (Suc k) = JUndefined")
      case True
      then have "toString_method (cell row (Suc k)) = Inl TypeError"
        unfolding lab by simp
      then show ?thesis
        unfolding levelStep_def split seq using True by simp
    next
      case ok: False
      then have l: "toString_method (cell row (Suc k)) = Inr (js_toString (cell row (Suc k)))"
        unfolding lab by simp
      have none: "\<not> (\<exists>i \<le> Suc k. cell row i = JNull \<or> cell row i = JUndefined)"
        unfolding split using False ok by simp
      show ?thesis
        unfolding levelStep_def seq l
        by (simp only: sum.case Let_def parent pathKey_Suc [symmetric] none if_False)
    qed
  qed
qed

lemma magnitude_zero: "magnitude (JNum 0) = 0"
  by (simp add: magnitude_def toPrimitive_def toNumber_prim_def)

lemma exact_zero: "exact (JNum 0)"
  by (simp add: safe_def)

lemma root_fold:
  assumes "in_range vi rows"
  shows "fold_rows (rootStep vi) rows [] =
     (if \<exists>r \<in> set rows. cell r 0 = JNull \<or> cell r 0 = JUndefined then Inl TypeError
      else Inr (foldl (group_step (pathKey 0) (\<lambda>r. addition (JNum 0) (cell r vi))
                  (\<lambda>v r. addition (if v = JNull \<or> v = JUndefined then JNum 0 else v)
                                   (cell r vi)))
                [] rows))"
proof -
  let ?B = "\<lambda>rest. sum_list (map (\<lambda>row. magnitude (cell row vi)) rest)"
  let ?Inv = "\<lambda>s rest. list_all (list_all exact) rest \<and> ?B rest \<le> 2 ^ 53
      \<and> (\<forall>kv \<in> set s. exact (snd kv) \<and> magnitude (snd kv) + ?B rest \<le> 2 ^ 53)"
  let ?bad = "\<lambda>r. cell r 0 = JNull \<or> cell r 0 = JUndefined"
  let ?g = "group_step (pathKey 0) (\<lambda>r. addition (JNum 0) (cell r vi))
                  (\<lambda>v r. addition (if v = JNull \<or> v = JUndefined then JNum 0 else v)
                                   (cell r vi))"
  have bad: "rootStep vi s r = Inl TypeError" if "?Inv s (r # rest)" and "?bad r" for s r rest
  proof -
    have "list_all exact r"
      using that(1) by simp
    then show ?thesis
      using that(2) by (simp add: rootStep_cases)
  qed
  have good: "rootStep vi s r = Inr (?g s r) \<and> ?Inv (?g s r) rest"
    if inv: "?Inv s (r # rest)" and ok: "\<not> ?bad r" for s r rest
  proof -
    let ?c = "cell r vi"
    let ?k = "pathKey 0 r"
    have ex: "list_all exact r" and rest_ex: "list_all (list_all exact) rest"
      and bud: "magnitude ?c + ?B rest \<le> 2 ^ 53"
      and ent: "\<forall>kv \<in> set s. exact (snd kv)
                  \<and> magnitude (snd kv) + (magnitude ?c + ?B rest) \<le> 2 ^ 53"
      using inv by simp_all
    define old where "old = (case map_of s ?k of
                      None \<Rightarrow> JNum 0
                    | Some v \<Rightarrow> if v = JNull \<or> v = JUndefined then JNum 0 else v)"
    have old_ok: "exact old \<and> magnitude old + (magnitude ?c + ?B rest) \<le> 2 ^ 53"
    proof (cases "map_of s ?k")
      case None
      then have "old = JNum 0"
        by (simp add: old_def)
      then show ?thesis
        using bud by (simp add: magnitude_zero safe_def)
    next
      case (Some v)
      then have "(?k, v) \<in> set s"
        by (rule map_of_SomeD)
      with ent have v: "exact v \<and> magnitude v + (magnitude ?c + ?B rest) \<le> 2 ^ 53"
        by fastforce
      show ?thesis
      proof (cases "v = JNull \<or> v = JUndefined")
        case True
        then have "old = JNum 0"
          using Some by (simp add: old_def)
        then show ?thesis
          using bud by (simp add: magnitude_zero safe_def)
      next
        case False
        then have "old = v"
          using Some by (simp add: old_def)
        then show ?thesis
          using v by simp
      qed
    qed
    have c_ex: "exact ?c"
      using ex by (rule exact_cell)
    have B0: "0 \<le> ?B rest"
      by (rule budget_nonneg)
    have c0: "0 \<le> magnitude ?c"
      by (rule magnitude_nonneg)
    have plus: "js_plus old ?c = Inr (addition old ?c)"
      and plus_ex: "exact (addition old ?c)"
      and plus_le: "magnitude (addition old ?c) + ?B rest \<le> 2 ^ 53"
      using js_plus_budget [OF conjunct1 [OF old_ok] c_ex B0 conjunct2 [OF old_ok]]
      by simp_all
    have step: "rootStep vi s r = Inr (assoc_set s ?k (addition old ?c))"
      using ok plus unfolding rootStep_cases [OF ex] old_def by simp
    have g: "?g s r = assoc_set s ?k (addition old ?c)"
      unfolding group_step_def old_def by (simp split: option.splits)
    have inv': "?Inv (assoc_set s ?k (addition old ?c)) rest"
    proof (intro conjI ballI)
      show "list_all (list_all exact) rest"
        by (rule rest_ex)
      show "?B rest \<le> 2 ^ 53"
        using bud c0 by simp
    next
      fix kv assume "kv \<in> set (assoc_set s ?k (addition old ?c))"
      then have "kv = (?k, addition old ?c) \<or> kv \<in> set s"
        using assoc_set_entries [of s ?k "addition old ?c"] by auto
      then show "exact (snd kv)"
        using plus_ex ent by auto
    next
      fix kv assume "kv \<in> set (assoc_set s ?k (addition old ?c))"
      then have "kv = (?k, addition old ?c) \<or> kv \<in> set s"
        using assoc_set_entries [of s ?k "addition old ?c"] by auto
      then show "magnitude (snd kv) + ?B rest \<le> 2 ^ 53"
      proof
        assume "kv = (?k, addition old ?c)"
        then show ?thesis
          using plus_le by simp
      next
        assume "kv \<in> set s"
        with ent have "magnitude (snd kv) + (magnitude ?c + ?B rest) \<le> 2 ^ 53"
          by simp
        then show ?thesis
          using c0 by simp
      qed
    qed
    show ?thesis
      unfolding g using step inv' by simp
  qed
  have start: "?Inv [] rows"
    using assms by (simp add: in_range_def)
  show ?thesis
    using bad good start by (rule fold_rows_guarded [where Inv = ?Inv and bad = ?bad])
qed

lemma level_fold:
  assumes "in_range vi rows"
  shows "fold_rows (levelStep (Suc k) vi) rows [] =
     (if \<exists>r \<in> set rows. \<exists>i \<le> Suc k. cell r i = JNull \<or> cell r i = JUndefined
      then Inl TypeError
      else Inr (foldl (group_step (pathKey (Suc k))
                  (\<lambda>r. (cell r vi, js_toString (cell r (Suc k)), pathKey k r))
                  (\<lambda>n r. (addition (fst n) (cell r vi), fst (snd n), snd (snd n))))
                [] rows))"
proof -
  let ?B = "\<lambda>rest. sum_list (map (\<lambda>row. magnitude (cell row vi)) rest)"
  let ?Inv = "\<lambda>s rest. list_all (list_all exact) rest \<and> ?B rest \<le> 2 ^ 53
      \<and> (\<forall>kv \<in> set s. exact (fst (snd kv)) \<and> magnitude (fst (snd kv)) + ?B rest \<le> 2 ^ 53)"
  let ?bad = "\<lambda>r. \<exists>i \<le> Suc k. cell r i = JNull \<or> cell r i = JUndefined"
  let ?g = "group_step (pathKey (Suc k))
                  (\<lambda>r. (cell r vi, js_toString (cell r (Suc k)), pathKey k r))
                  (\<lambda>n r. (addition (fst n) (cell r vi), fst (snd n), snd (snd n)))"
  have bad: "levelStep (Suc k) vi s r = Inl TypeError"
    if "?Inv s (r # rest)" and "?bad r" for s r rest
  proof -
    have "list_all exact r"
      using that(1) by simp
    then show ?thesis
      using that(2) by (simp add: levelStep_cases)
  qed
  have good: "levelStep (Suc k) vi s r = Inr (?g s r) \<and> ?Inv (?g s r) rest"
    if inv: "?Inv s (r # rest)" and ok: "\<not> ?bad r" for s r rest
  proof -
    let ?c = "cell r vi"
    let ?k = "pathKey (Suc k) r"
    have ex: "list_all exact r" and rest_ex: "list_all (list_all exact) rest"
      and bud: "magnitude ?c + ?B rest \<le> 2 ^ 53"
      and ent: "\<forall>kv \<in> set s. exact (fst (snd kv))
                  \<and> magnitude (fst (snd kv)) + (magnitude ?c + ?B rest) \<le> 2 ^ 53"
      using inv by simp_all
    have c_ex: "exact ?c"
      using ex by (rule exact_cell)
    have B0: "0 \<le> ?B rest"
      by (rule budget_nonneg)
    have c0: "0 \<le> magnitude ?c"
      by (rule magnitude_nonneg)
    have rest_le: "?B rest \<le> 2 ^ 53"
      using bud c0 by simp
    have older: "exact (fst (snd kv)) \<and> magnitude (fst (snd kv)) + ?B rest \<le> 2 ^ 53"
      if "kv \<in> set s" for kv
    proof -
      from ent that have "exact (fst (snd kv))"
        and "magnitude (fst (snd kv)) + (magnitude ?c + ?B rest) \<le> 2 ^ 53"
        by simp_all
      then show ?thesis
        using c0 by simp
    qed
    have keep: "?Inv (assoc_set s ?k n) rest"
      if n_ex: "exact (fst n)" and n_le: "magnitude (fst n) + ?B rest \<le> 2 ^ 53" for n
    proof (intro conjI ballI)
      show "list_all (list_all exact) rest"
        by (rule rest_ex)
      show "?B rest \<le> 2 ^ 53"
        by (rule rest_le)
    next
      fix kv assume "kv \<in> set (assoc_set s ?k n)"
      then have "kv = (?k, n) \<or> kv \<in> set s"
        using assoc_set_entries [of s ?k n] by auto
      then show "exact (fst (snd kv))"
      proof
        assume "kv = (?k, n)"
        then show ?thesis
          using n_ex by simp
      next
        assume "kv \<in> set s"
        from older [OF this] show ?thesis
          by simp
      qed
    next
      fix kv assume "kv \<in> set (assoc_set s ?k n)"
      then have "kv = (?k, n) \<or> kv \<in> set s"
        using assoc_set_entries [of s ?k n] by auto
      then show "magnitude (fst (snd kv)) + ?B rest \<le> 2 ^ 53"
      proof
        assume "kv = (?k, n)"
        then show ?thesis
          using n_le by simp
      next
        assume "kv \<in> set s"
        from older [OF this] show ?thesis
          by simp
      qed
    qed
    show ?thesis
    proof (cases "map_of s ?k")
      case None
      let ?n = "(?c, js_toString (cell r (Suc k)), pathKey k r)"
      have step: "levelStep (Suc k) vi s r = Inr (assoc_set s ?k ?n)"
        using ok None unfolding levelStep_cases [OF ex] by simp
      have g: "?g s r = assoc_set s ?k ?n"
        using None by (simp add: group_step_def)
      have inv': "?Inv (assoc_set s ?k ?n) rest"
        by (rule keep) (use c_ex bud in simp_all)
      show ?thesis
        unfolding g using step inv' by simp
    next
      case (Some n)
      obtain v l p where n: "n = (v, l, p)"
        by (cases n) auto
      have "(?k, n) \<in> set s"
        using Some by (rule map_of_SomeD)
      with ent have v: "exact v" and v_le: "magnitude v + (magnitude ?c + ?B rest) \<le> 2 ^ 53"
        unfolding n by fastforce+
      have plus: "js_plus v ?c = Inr (addition v ?c)"
        and plus_ex: "exact (addition v ?c)"
        and plus_le: "magnitude (addition v ?c) + ?B rest \<le> 2 ^ 53"
        using js_plus_budget [OF v c_ex B0 v_le] by simp_all
      let ?n = "(addition v ?c, l, p)"
      have step: "levelStep (Suc k) vi s r = Inr (assoc_set s ?k ?n)"
        using ok Some plus unfolding levelStep_cases [OF ex] n by simp
      have g: "?g s r = assoc_set s ?k ?n"
        using Some by (simp add: group_step_def n)
      have inv': "?Inv (assoc_set s ?k ?n) rest"
        by (rule keep) (use plus_ex plus_le in simp_all)
      show ?thesis
        unfolding g using step inv' by simp
    qed
  qed
  have start: "?Inv [] rows"
    using assms by (simp add: in_range_def)
  show ?thesis
    using bad good start by (rule fold_rows_guarded [where Inv = ?Inv and bad = ?bad])
qed

lemma root_foldl:
  "v \<noteq> JNull \<Longrightarrow> v \<noteq> JUndefined \<Longrightarrow>
   foldl (\<lambda>v r. addition (if v = JNull \<or> v = JUndefined then JNum 0 else v) (cell r vi)) v rs
     = foldl addition v (map (\<lambda>r. cell r vi) rs)"
proof (induction rs arbitrary: v)
  case Nil
  show ?case by simp
next
  case (Cons r rs)
  have "addition v (cell r vi) \<noteq> JNull" and "addition v (cell r vi) \<noteq> JUndefined"
    using addition_defined [of v "cell r vi"] by simp_all
  then show ?case
    using Cons.IH [of "addition v (cell r vi)"] Cons.prems by simp
qed

lemma root_group_value:
  assumes "rs \<noteq> []"
  shows "group_value (\<lambda>r. addition (JNum 0) (cell r vi))
           (\<lambda>v r. addition (if v = JNull \<or> v = JUndefined then JNum 0 else v) (cell r vi)) rs
         = nodeValue 0 (map (\<lambda>r. cell r vi) rs)"
proof -
  from assms obtain r rest where rs: "rs = r # rest"
    by (cases rs) auto
  have "addition (JNum 0) (cell r vi) \<noteq> JNull" and "addition (JNum 0) (cell r vi) \<noteq> JUndefined"
    using addition_defined [of "JNum 0" "cell r vi"] by simp_all
  then show ?thesis
    unfolding rs by (simp add: group_value_def nodeValue_def root_foldl)
qed

lemma level_foldl:
  "foldl (\<lambda>n r. (addition (fst n) (cell r vi), fst (snd n), snd (snd n))) (v, l, p) rs
     = (foldl addition v (map (\<lambda>r. cell r vi) rs), l, p)"
  by (induction rs arbitrary: v) simp_all

lemma level_group_value:
  assumes "rs \<noteq> []"
  shows "group_value (\<lambda>r. (cell r vi, js_toString (cell r (Suc k)), pathKey k r))
           (\<lambda>n r. (addition (fst n) (cell r vi), fst (snd n), snd (snd n))) rs
         = (nodeValue (Suc k) (map (\<lambda>r. cell r vi) rs), js_toString (cell (hd rs) (Suc k)),
            pathKey k (hd rs))"
proof -
  from assms obtain r rest where rs: "rs = r # rest"
    by (cases rs) auto
  show ?thesis
    unfolding rs group_value_def nodeValue_def list.sel level_foldl by simp
qed

lemma sunburstLevel_aggregated:
  assumes "in_range vi rows"
  shows "sunburstLevel d vi rows =
     (if \<exists>r \<in> set rows. \<exists>i \<le> d. cell r i = JNull \<or> cell r i = JUndefined then Inl TypeError
      else Inr (aggregatedLevel d vi rows))"
proof (cases d)
  case 0
  have nodes: "
      (key, key, [],
        group_value (\<lambda>r. addition (JNum 0) (cell r vi))
          (\<lambda>v r. addition (if v = JNull \<or> v = JUndefined then JNum 0 else v) (cell r vi))
          (filter (\<lambda>r. pathKey 0 r = key) rows))
      = (key, js_toString (cell (hd (filter (\<lambda>row. pathKey 0 row = key) rows)) 0), [],
         nodeValue 0 (map (\<lambda>row. cell row vi) (filter (\<lambda>row. pathKey 0 row = key) rows)))"
    if "key \<in> set (first_occurrences (map (pathKey 0) rows))" for key
  proof -
    from that have mem: "key \<in> set (map (pathKey 0) rows)"
      by simp
    have ne: "filter (\<lambda>r. pathKey 0 r = key) rows \<noteq> []"
      using mem by (rule filter_key_present)
    have lab: "js_toString (cell (hd (filter (\<lambda>row. pathKey 0 row = key) rows)) 0) = key"
      using hd_filter_key [OF mem] by (simp add: pathKey_0)
    show ?thesis
      using root_group_value [OF ne] lab by simp
  qed
  show ?thesis
    unfolding 0 sunburstLevel_def root_fold [OF assms] foldl_group_step aggregatedLevel_def
    using nodes by (simp add: comp_def)
next
  case (Suc k)
  have nodes: "
      (\<lambda>(id, value, label, parentLabel). (id, label, parentLabel, value))
        (key, group_value (\<lambda>r. (cell r vi, js_toString (cell r (Suc k)), pathKey k r))
            (\<lambda>n r. (addition (fst n) (cell r vi), fst (snd n), snd (snd n)))
            (filter (\<lambda>r. pathKey (Suc k) r = key) rows))
      = (key, js_toString (cell (hd (filter (\<lambda>row. pathKey (Suc k) row = key) rows)) (Suc k)),
         pathKey k (hd (filter (\<lambda>row. pathKey (Suc k) row = key) rows)),
         nodeValue (Suc k)
           (map (\<lambda>row. cell row vi) (filter (\<lambda>row. pathKey (Suc k) row = key) rows)))"
    if "key \<in> set (first_occurrences (map (pathKey (Suc k)) rows))" for key
  proof -
    from that have mem: "key \<in> set (map (pathKey (Suc k)) rows)"
      by simp
    have ne: "filter (\<lambda>r. pathKey (Suc k) r = key) rows \<noteq> []"
      using mem by (rule filter_key_present)
    show ?thesis
      using level_group_value [OF ne, of vi k] by simp
  qed
  show ?thesis
    unfolding Suc sunburstLevel_def level_fold [OF assms] foldl_group_step aggregatedLevel_def
    using nodes by (simp add: comp_def)
qed

lemma ex_depth:
  "(\<exists>d \<in> set [0..<vi]. \<exists>r \<in> set rows. \<exists>i \<le> d. P r i) = (\<exists>r \<in> set rows. \<exists>i < vi. P r i)"
proof
  assume "\<exists>d \<in> set [0..<vi]. \<exists>r \<in> set rows. \<exists>i \<le> d. P r i"
  then obtain d r i where "d < vi" and "r \<in> set rows" and "i \<le> d" and "P r i"
    by auto
  then have "r \<in> set rows" and "i < vi" and "P r i"
    by simp_all
  then show "\<exists>r \<in> set rows. \<exists>i < vi. P r i"
    by blast
next
  assume "\<exists>r \<in> set rows. \<exists>i < vi. P r i"
  then obtain r i where "r \<in> set rows" and "i < vi" and "P r i"
    by auto
  then have "i \<in> set [0..<vi]" and "r \<in> set rows" and "i \<le> i" and "P r i"
    by simp_all
  then show "\<exists>d \<in> set [0..<vi]. \<exists>r \<in> set rows. \<exists>i \<le> d. P r i"
    by blast
qed

subsection \<open>Joined paths and exact paths\<close>

lemma first_occurrences_map:
  "inj_on f (set xs) \<Longrightarrow> first_occurrences (map f xs) = map f (first_occurrences xs)"
proof (induction xs rule: rev_induct)
  case Nil
  show ?case by (simp add: first_occurrences_def)
next
  case (snoc x xs)
  have inj: "inj_on f (set xs)"
    using snoc.prems by (simp add: inj_on_def)
  have mem: "(f x \<in> set (map f xs)) = (x \<in> set xs)"
    using snoc.prems by (auto simp: inj_on_def)
  show ?case
    using snoc.IH [OF inj] mem by (simp add: first_occurrences_snoc)
qed

lemma pathKey_path: "pathKey depth row = intersperse ''-'' (path depth row)"
  by (simp add: pathKey_def path_def)

lemma last_path: "last (path depth row) = js_toString (cell row depth)"
  by (simp add: path_def)

lemma butlast_path:
  "intersperse ''-'' (butlast (path depth row)) = (if depth = 0 then [] else pathKey (depth - 1) row)"
proof -
  have "path depth row
      = map (\<lambda>i. js_toString (cell row i)) [0..<depth] @ [js_toString (cell row depth)]"
    by (simp add: path_def)
  then have b: "butlast (path depth row) = map (\<lambda>i. js_toString (cell row i)) [0..<depth]"
    by (simp only: butlast_snoc)
  show ?thesis
  proof (cases depth)
    case 0
    show ?thesis
      using b unfolding 0 by simp
  next
    case (Suc k)
    have "pathKey (depth - 1) row
        = intersperse ''-'' (map (\<lambda>i. js_toString (cell row i)) [0..<depth])"
      unfolding Suc pathKey_def by simp
    then show ?thesis
      unfolding b using Suc by simp
  qed
qed

lemma weights_nums:
  "\<forall>row \<in> set rows. \<exists>w. cell row vi = JNum w \<Longrightarrow>
   map (\<lambda>row. cell row vi) rows = map JNum (map (weight vi) rows)"
  by (induction rows) (auto simp: weight_def)

lemma hd_filter_path:
  "p \<in> set (map pth rows) \<Longrightarrow> pth (hd (filter (\<lambda>r. pth r = p) rows)) = p"
  by (induction rows) auto

lemma aggregatedLevel_by_path:
  assumes nums: "\<forall>row \<in> set rows. \<exists>w. cell row vi = JNum w"
    and apart: "\<forall>r1 \<in> set rows. \<forall>r2 \<in> set rows.
                  pathKey depth r1 = pathKey depth r2 \<longrightarrow> path depth r1 = path depth r2"
  shows "aggregatedLevel depth vi rows = nodesByPath depth vi rows"
proof -
  let ?J = "intersperse ''-''"
  let ?ps = "first_occurrences (map (path depth) rows)"
  have inj: "inj_on ?J (set (map (path depth) rows))"
    using apart by (auto simp: inj_on_def pathKey_path)
  have keys: "first_occurrences (map (pathKey depth) rows) = map ?J ?ps"
  proof -
    have m: "map (pathKey depth) rows = map ?J (map (path depth) rows)"
      by (simp add: pathKey_path)
    show ?thesis
      unfolding m by (rule first_occurrences_map [OF inj])
  qed
  have node: "(?J p,
             js_toString (cell (hd (filter (\<lambda>row. pathKey depth row = ?J p) rows)) depth),
             (if depth = 0 then []
              else pathKey (depth - 1) (hd (filter (\<lambda>row. pathKey depth row = ?J p) rows))),
             nodeValue depth
               (map (\<lambda>row. cell row vi) (filter (\<lambda>row. pathKey depth row = ?J p) rows)))
      = (?J p, last p, ?J (butlast p),
         JNum (sum_list (map (weight vi) (filter (\<lambda>row. path depth row = p) rows))))"
    if "p \<in> set ?ps" for p
  proof -
    from that have mem: "p \<in> set (map (path depth) rows)"
      by simp
    then obtain r where r: "r \<in> set rows" and p: "p = path depth r"
      by auto
    let ?G = "filter (\<lambda>row. path depth row = p) rows"
    have same: "filter (\<lambda>row. pathKey depth row = ?J p) rows = ?G"
    proof (rule filter_cong [OF refl])
      fix row assume "row \<in> set rows"
      then show "(pathKey depth row = ?J p) = (path depth row = p)"
        using apart r unfolding p by (auto simp: pathKey_path)
    qed
    have ne: "?G \<noteq> []"
      using mem by (rule filter_key_present)
    have first: "path depth (hd ?G) = p"
      using mem by (rule hd_filter_path)
    have lab: "js_toString (cell (hd ?G) depth) = last p"
      using last_path [of depth "hd ?G"] first by simp
    have par: "(if depth = 0 then [] else pathKey (depth - 1) (hd ?G)) = ?J (butlast p)"
      using butlast_path [of depth "hd ?G"] first by simp
    have "\<forall>row \<in> set ?G. \<exists>w. cell row vi = JNum w"
      using nums by simp
    then have ws: "map (\<lambda>row. cell row vi) ?G = map JNum (map (weight vi) ?G)"
      by (rule weights_nums)
    have val: "nodeValue depth (map (\<lambda>row. cell row vi) ?G) = JNum (sum_list (map (weight vi) ?G))"
      unfolding ws by (rule nodeValue_nums) (simp add: ne)
    show ?thesis
      unfolding same lab par val ..
  qed
  show ?thesis
    unfolding aggregatedLevel_def nodesByPath_def keys using node by (simp add: comp_def)
qed

text \<open>
  Claim C8, as the spec states it, fails on three kinds of tables. Rows whose paths differ
  but join to the same string (\<open>("a-b","c")\<close> and \<open>("a","b-c")\<close>) are summed into one node,
  with the label and parent of the first, where the rows sharing the exact path make two
  nodes. A \<open>null\<close> in a path column is not stringified: \<open>toString\<close> throws and nothing is
  produced. Weights that are strings are not summed but concatenated, after the initial
  \<open>0\<close> at depth 0.
\<close>

theorem generateSunburstChart_exact_path_counterexample:
  "generateSunburstChart
     \<lparr>tables = [], tableNames = [],
      primaryResults = Some [\<lparr>name = ''PrimaryResult'',
        columns = [\<lparr>col_name = ''region'', col_type = ''string'', ordinal = 0\<rparr>,
                   \<lparr>col_name = ''sub'', col_type = ''string'', ordinal = 1\<rparr>,
                   \<lparr>col_name = ''count'', col_type = ''long'', ordinal = 2\<rparr>],
        body = KustoRows [[JStr ''a-b'', JStr ''c'', JNum 1],
                          [JStr ''a'', JStr ''b-c'', JNum 2]]\<rparr>]\<rparr>
     = Inr (Some \<lparr>ids = [''a-b'', ''a'', ''a-b-c''],
                  labels = [''a-b'', ''a'', ''c''],
                  parents = [[], [], ''a-b''],
                  sb_values = [JNum 1, JNum 2, JNum 3]\<rparr>)
   \<and> path 1 [JStr ''a-b'', JStr ''c'', JNum 1] \<noteq> path 1 [JStr ''a'', JStr ''b-c'', JNum 2]
   \<and> nodesByPath 1 2 [[JStr ''a-b'', JStr ''c'', JNum 1], [JStr ''a'', JStr ''b-c'', JNum 2]]
     = [(''a-b-c'', ''c'', ''a-b'', JNum 1), (''a-b-c'', ''b-c'', ''a'', JNum 2)]
   \<and> generateSunburstChart
     \<lparr>tables = [], tableNames = [],
      primaryResults = Some [\<lparr>name = ''PrimaryResult'',
        columns = [\<lparr>col_name = ''region'', col_type = ''string'', ordinal = 0\<rparr>,
                   \<lparr>col_name = ''sub'', col_type = ''string'', ordinal = 1\<rparr>,
                   \<lparr>col_name = ''count'', col_type = ''long'', ordinal = 2\<rparr>],
        body = KustoRows [[JStr ''A'', JNull, JNum 3]]\<rparr>]\<rparr>
     = Inl TypeError
   \<and> generateSunburstChart
     \<lparr>tables = [], tableNames = [],
      primaryResults = Some [\<lparr>name = ''PrimaryResult'',
        columns = [\<lparr>col_name = ''region'', col_type = ''string'', ordinal = 0\<rparr>,
                   \<lparr>col_name = ''sub'', col_type = ''string'', ordinal = 1\<rparr>,
                   \<lparr>col_name = ''count'', col_type = ''string'', ordinal = 2\<rparr>],
        body = KustoRows [[JStr ''A'', JStr ''x'', JStr ''3''],
                          [JStr ''A'', JStr ''y'', JStr ''2'']]\<rparr>]\<rparr>
     = Inr (Some \<lparr>ids = [''A'', ''A-x'', ''A-y''],
                  labels = [''A'', ''x'', ''y''],
                  parents = [[], ''A'', ''A''],
                  sb_values = [JStr ''032'', JStr ''3'', JStr ''2'']\<rparr>)"
  by code_simp

text \<open>
  Claim C8, amended. For a primary table with more than two columns, within the numbers
  of the model: when a path cell of some row is \<open>null\<close> or \<open>undefined\<close>,
  \<open>generateSunburstChart\<close> throws a TypeError; otherwise it produces, depth by depth, one
  node for each dash-joined stringified path through that depth, in the order of first
  occurrence. At depth 0 the node is keyed by the stringified first column; a deeper node
  is parented by the dash-joined path of the prior depth, read with its label from the
  first row with that joined path. The value of a node combines the last column of the
  rows sharing its joined path by \<open>+\<close>, which is their sum when they are numbers. When
  the weights are numbers and no two rows with different paths through a depth have the
  same joined path, the nodes of that depth are those of the specification: one for each
  path, summing the rows sharing that exact path. For columns \<open>[region, sub, count]\<close> and
  rows \<open>("A","x",3), ("A","y",2), ("B","x",5)\<close> the roots are \<open>A\<close> (5) and \<open>B\<close> (5) and
  the nodes \<open>A-x\<close> (3) and \<open>A-y\<close> (2) have parent \<open>A\<close>.
\<close>

theorem generateSunburstChart_aggregates:
  assumes "primaryResults results = Some (t # others)"
    and "2 < length (columns t)"
    and "in_range (length (columns t) - 1) (sunburstRows t)"
  shows "generateSunburstChart results =
           (if \<exists>row \<in> set (sunburstRows t). \<exists>i < length (columns t) - 1.
                 cell row i = JNull \<or> cell row i = JUndefined
            then Inl TypeError
            else Inr (Some (hierarchy (length (columns t) - 1) (sunburstRows t))))
       \<and> (\<forall>depth ws. ws \<noteq> [] \<longrightarrow> nodeValue depth (map JNum ws) = JNum (sum_list ws))
       \<and> (\<forall>depth.
            (\<forall>row \<in> set (sunburstRows t). \<exists>w. cell row (length (columns t) - 1) = JNum w)
            \<and> (\<forall>r1 \<in> set (sunburstRows t). \<forall>r2 \<in> set (sunburstRows t).
                  pathKey depth r1 = pathKey depth r2 \<longrightarrow> path depth r1 = path depth r2)
            \<longrightarrow> aggregatedLevel depth (length (columns t) - 1) (sunburstRows t)
                = nodesByPath depth (length (columns t) - 1) (sunburstRows t))"
proof -
  let ?vi = "length (columns t) - 1"
  let ?rows = "sunburstRows t"
  have levels: "sequence (map (\<lambda>index. sunburstLevel index ?vi ?rows) [0..<?vi])
      = (if \<exists>d \<in> set [0..<?vi]. \<exists>r \<in> set ?rows. \<exists>i \<le> d. cell r i = JNull \<or> cell r i = JUndefined
         then Inl TypeError
         else Inr (map (\<lambda>depth. aggregatedLevel depth ?vi ?rows) [0..<?vi]))"
    by (rule sequence_guarded) (rule sunburstLevel_aggregated [OF assms(3)])
  have cols: "\<not> length (columns t) \<le> 2"
    using assms(2) by simp
  have code: "generateSunburstChart results =
           (if \<exists>row \<in> set ?rows. \<exists>i < ?vi. cell row i = JNull \<or> cell row i = JUndefined
            then Inl TypeError
            else Inr (Some (hierarchy ?vi ?rows)))"
    unfolding generateSunburstChart_def assms(1) hierarchy_def
    using cols levels [unfolded ex_depth] by (simp add: Let_def)
  have sums: "\<forall>depth ws. ws \<noteq> [] \<longrightarrow> nodeValue depth (map JNum ws) = JNum (sum_list ws)"
    by (simp add: nodeValue_nums)
  have paths: "\<forall>depth.
            (\<forall>row \<in> set ?rows. \<exists>w. cell row ?vi = JNum w)
            \<and> (\<forall>r1 \<in> set ?rows. \<forall>r2 \<in> set ?rows.
                  pathKey depth r1 = pathKey depth r2 \<longrightarrow> path depth r1 = path depth r2)
            \<longrightarrow> aggregatedLevel depth ?vi ?rows = nodesByPath depth ?vi ?rows"
  proof (intro allI impI)
    fix depth
    assume h: "(\<forall>row \<in> set ?rows. \<exists>w. cell row ?vi = JNum w)
            \<and> (\<forall>r1 \<in> set ?rows. \<forall>r2 \<in> set ?rows.
                  pathKey depth r1 = pathKey depth r2 \<longrightarrow> path depth r1 = path depth r2)"
    show "aggregatedLevel depth ?vi ?rows = nodesByPath depth ?vi ?rows"
      using conjunct1 [OF h] conjunct2 [OF h] by (rule aggregatedLevel_by_path)
  qed
  show ?thesis
    by (rule conjI [OF code conjI [OF sums paths]])
qed

theorem generateSunburstChart_aggregates_witness:
  "generateSunburstChart
     \<lparr>tables = [], tableNames = [],
      primaryResults = Some [\<lparr>name = ''PrimaryResult'',
        columns = [\<lparr>col_name = ''region'', col_type = ''string'', ordinal = 0\<rparr>,
                   \<lparr>col_name = ''sub'', col_type = ''string'', ordinal = 1\<rparr>,
                   \<lparr>col_name = ''count'', col_type = ''long'', ordinal = 2\<rparr>],
        body = KustoRows [[JStr ''A'', JStr ''x'', JNum 3], [JStr ''A'', JStr ''y'', JNum 2],
                          [JStr ''B'', JStr ''x'', JNum 5]]\<rparr>]\<rparr>
   = Inr (Some \<lparr>ids = [''A'', ''B'', ''A-x'', ''A-y'', ''B-x''],
                labels = [''A'', ''B'', ''x'', ''y'', ''x''],
                parents = [[], [], ''A'', ''A'', ''B''],
                sb_values = [JNum 5, JNum 5, JNum 3, JNum 2, JNum 5]\<rparr>)
   \<and> nodeValue 0 (map JNum [3, 2]) = JNum (sum_list [3, 2])
   \<and> aggregatedLevel 1 2 [[JStr ''A'', JStr ''x'', JNum 3], [JStr ''A'', JStr ''y'', JNum 2],
                           [JStr ''B'', JStr ''x'', JNum 5]]
     = nodesByPath 1 2 [[JStr ''A'', JStr ''x'', JNum 3], [JStr ''A'', JStr ''y'', JNum 2],
                        [JStr ''B'', JStr ''x'', JNum 5]]"
proof -
  let ?rows = "[[JStr ''A'', JStr ''x'', JNum 3], [JStr ''A'', JStr ''y'', JNum 2],
                          [JStr ''B'', JStr ''x'', JNum 5]]"
  let ?t = "\<lparr>name = ''PrimaryResult'',
        columns = [\<lparr>col_name = ''region'', col_type = ''string'', ordinal = 0\<rparr>,
                   \<lparr>col_name = ''sub'', col_type = ''string'', ordinal = 1\<rparr>,
                   \<lparr>col_name = ''count'', col_type = ''long'', ordinal = 2\<rparr>],
        body = KustoRows ?rows\<rparr>"
  let ?results = "\<lparr>tables = [], tableNames = [], primaryResults = Some [?t]\<rparr>"
  have h1: "primaryResults ?results = Some (?t # [])"
    by simp
  have h2: "2 < length (columns ?t)"
    by simp
  have rows: "sunburstRows ?t = ?rows"
    by (simp add: sunburstRows_def)
  have vi: "length (columns ?t) - 1 = 2"
    by simp
  have h3: "in_range (length (columns ?t) - 1) (sunburstRows ?t)"
    unfolding rows vi
    by (simp add: in_range_def safe_def magnitude_def toPrimitive_def toNumber_prim_def cell_def)
  have defined: "\<not> (\<exists>row \<in> set (sunburstRows ?t). \<exists>i < length (columns ?t) - 1.
                 cell row i = JNull \<or> cell row i = JUndefined)"
    unfolding rows vi by (simp add: cell_def less_Suc_eq numeral_2_eq_2)
  have nodes: "hierarchy 2 ?rows
      = \<lparr>ids = [''A'', ''B'', ''A-x'', ''A-y'', ''B-x''],
         labels = [''A'', ''B'', ''x'', ''y'', ''x''],
         parents = [[], [], ''A'', ''A'', ''B''],
         sb_values = [JNum 5, JNum 5, JNum 3, JNum 2, JNum 5]\<rparr>"
    by code_simp
  have ne: "[3, 2 :: int] \<noteq> []"
    by simp
  have nums: "\<forall>row \<in> set (sunburstRows ?t). \<exists>w. cell row (length (columns ?t) - 1) = JNum w"
    unfolding rows vi by (simp add: cell_def)
  have apart: "\<forall>r1 \<in> set (sunburstRows ?t). \<forall>r2 \<in> set (sunburstRows ?t).
                  pathKey 1 r1 = pathKey 1 r2 \<longrightarrow> path 1 r1 = path 1 r2"
    unfolding rows by (simp add: pathKey_def path_def cell_def)
  note inst = generateSunburstChart_aggregates [OF h1 h2 h3]
  have code: "generateSunburstChart ?results = Inr (Some (hierarchy 2 ?rows))"
    using conjunct1 [OF inst] defined unfolding rows vi by simp
  have sums: "nodeValue 0 (map JNum [3, 2]) = JNum (sum_list [3, 2])"
    using conjunct1 [OF conjunct2 [OF inst], rule_format, OF ne] .
  have paths: "aggregatedLevel 1 2 ?rows = nodesByPath 1 2 ?rows"
    using conjunct2 [OF conjunct2 [OF inst], rule_format, OF conjI [OF nums apart]]
    unfolding rows vi .
  show ?thesis
    by (rule conjI [OF code [unfolded nodes] conjI [OF sums paths]])
qed

section \<open>Properties of the time chart\<close>

text \<open>
  Claim C7 does not hold of the code. A table with no datetime and no timespan column and
  a \<open>real\<close> column at ordinal 1 should be sorted by that column, which would put the row
  \<open>[2, 3]\<close> first; every sort of \<open>renderChart\<close> reads column \<open>dateColumnIndex\<close>, here
  0, so the rows stay ordered by the first column, whatever \<open>Date.parse\<close> answers.
\<close>

theorem sortedData_ignores_real_column:
  "sortedData Date_parse stringToNumber
     [\<lparr>col_name = ''id'', col_type = ''long'', ordinal = 0\<rparr>,
      \<lparr>col_name = ''hour'', col_type = ''real'', ordinal = 1\<rparr>]
     [[JNum 1, JNum 5], [JNum 2, JNum 3]]
   = [[JNum 1, JNum 5], [JNum 2, JNum 3]]"
  by (simp add: sortedData_def columnIndex_def js_sort_def cell_def difference_def
      dateTime_def toNumber_def toPrimitive_def toNumber_prim_def split: option.split)

section \<open>Properties of the connection identity\<close>

lemma hex_digit_roundtrip:
  "k < 16 \<Longrightarrow> hex_val (hex_digit k) = Some k"
proof -
  have "\<forall>k \<in> set [0..<16]. hex_val (hex_digit k) = Some k"
    by code_simp
  then show "k < 16 \<Longrightarrow> hex_val (hex_digit k) = Some k"
    by simp
qed

lemma hex4_roundtrip:
  assumes "n < 32"
  shows "hex4 (CHR ''0'') (CHR ''0'') (hex_digit (n div 16)) (hex_digit (n mod 16)) = Some n"
proof -
  have a: "hex_val (hex_digit (n div 16)) = Some (n div 16)"
    using assms by (intro hex_digit_roundtrip) simp
  have b: "hex_val (hex_digit (n mod 16)) = Some (n mod 16)"
    by (intro hex_digit_roundtrip) simp
  have z: "hex_val (CHR ''0'') = Some 0"
    by (simp add: hex_val_def)
  show ?thesis
    by (simp add: hex4_def a b z)
qed

lemma b64_roundtrip:
  "n < 64 \<Longrightarrow> b64_dec (b64_enc n) = Some n \<and> b64_enc n \<noteq> CHR ''=''"
proof -
  have "\<forall>n \<in> set [0..<64]. b64_dec (b64_enc n) = Some n \<and> b64_enc n \<noteq> CHR ''=''"
    by code_simp
  then show "n < 64 \<Longrightarrow> b64_dec (b64_enc n) = Some n \<and> b64_enc n \<noteq> CHR ''=''"
    by simp
qed

lemma prepend_Inr: "prepend c (Inr (s, rest)) = Inr (c # s, rest)"
  by (simp add: prepend_def)

lemma parse_chars_escape_char:
  "parse_chars (escape_char c @ t) = prepend c (parse_chars t)"
proof (cases "(of_char c :: nat) < 32")
  case True
  have hx: "hex4 (CHR ''0'') (CHR ''0'') (hex_digit ((of_char c :: nat) div 16))
      (hex_digit ((of_char c :: nat) mod 16)) = Some (of_char c)"
    using True by (rule hex4_roundtrip)
  have lt: "(of_char c :: nat) < 128"
    using True by simp
  have nq: "c \<noteq> CHR 0x22" "c \<noteq> CHR 0x5C"
    using True by auto
  show ?thesis
    using True nq hx lt by (auto simp: escape_char_def unescape_def)
next
  case False
  then show ?thesis
    by (auto simp: escape_char_def unescape_def)
qed

lemma parse_chars_escape:
  "parse_chars (escape s @ CHR 0x22 # rest) = Inr (s, rest)"
  by (induction s) (simp_all add: parse_chars_escape_char prepend_Inr)

lemma sextet_1: "(a::nat) < 256 \<Longrightarrow> a div 4 < 64" by simp
lemma sextet_2: "(a::nat) mod 4 * 16 < 64"
proof -
  have "a mod 4 < 4" by simp
  then show ?thesis by linarith
qed
lemma sextet_3: "(b::nat) < 256 \<Longrightarrow> (a::nat) mod 4 * 16 + b div 16 < 64"
proof -
  assume "b < 256"
  then have "b div 16 < 16" by simp
  moreover have "a mod 4 < 4" by simp
  ultimately show ?thesis by linarith
qed
lemma sextet_4: "(b::nat) mod 16 * 4 < 64"
proof -
  have "b mod 16 < 16" by simp
  then show ?thesis by linarith
qed
lemma sextet_5: "(c::nat) < 256 \<Longrightarrow> (b::nat) mod 16 * 4 + c div 64 < 64"
proof -
  assume "c < 256"
  then have "c div 64 < 4" by simp
  moreover have "b mod 16 < 16" by simp
  ultimately show ?thesis by linarith
qed
lemma octet_1a: "(a::nat) div 4 * 4 + a mod 4 * 16 div 16 = a" by simp
lemma pad_2: "(a::nat) mod 4 * 16 mod 16 = 0" by simp
lemma octet_1: "(b::nat) < 256 \<Longrightarrow> (a::nat) div 4 * 4 + (a mod 4 * 16 + b div 16) div 16 = a"
proof -
  assume "b < 256"
  then have "b div 16 < 16" by simp
  then have "(a mod 4 * 16 + b div 16) div 16 = a mod 4" by simp
  then show ?thesis by simp
qed
lemma octet_2a: "(b::nat) < 256 \<Longrightarrow> ((a::nat) mod 4 * 16 + b div 16) mod 16 * 16 + b mod 16 * 4 div 4 = b"
proof -
  assume "b < 256"
  then have "b div 16 < 16" by simp
  then have "(a mod 4 * 16 + b div 16) mod 16 = b div 16" by simp
  then show ?thesis by simp
qed
lemma pad_1: "(b::nat) mod 16 * 4 mod 4 = 0" by simp
lemma octet_2: "(b::nat) < 256 \<Longrightarrow> (c::nat) < 256 \<Longrightarrow>
   ((a::nat) mod 4 * 16 + b div 16) mod 16 * 16 + (b mod 16 * 4 + c div 64) div 4 = b"
proof -
  assume "b < 256" "c < 256"
  then have b: "b div 16 < 16" and c: "c div 64 < 4" by simp_all
  have "(a mod 4 * 16 + b div 16) mod 16 = b div 16" using b by simp
  moreover have "(b mod 16 * 4 + c div 64) div 4 = b mod 16" using c by simp
  ultimately show ?thesis by simp
qed
lemma octet_3: "(c::nat) < 256 \<Longrightarrow> ((b::nat) mod 16 * 4 + c div 64) mod 4 * 64 + c mod 64 = c"
proof -
  assume "c < 256"
  then have c: "c div 64 < 4" by simp
  have "(b mod 16 * 4 + c div 64) mod 4 = c div 64" using c by simp
  then show ?thesis by simp
qed

lemma quotient_16: "(b::nat) < 256 \<Longrightarrow> b div 16 < 16"
  by simp

lemma quotient_64: "(c::nat) < 256 \<Longrightarrow> c div 64 < 4"
  by simp

lemma base64_roundtrip: "unbase64 (base64 bs) = Some bs"
proof (induction bs rule: base64.induct)
  case 1
  show ?case by simp
next
  case (2 a)
  have a: "(of_char a :: nat) < 256" by (rule nat_of_char_less_256)
  show ?case
    using b64_roundtrip [OF sextet_1 [OF a]] b64_roundtrip [OF sextet_2 [of "of_char a"]]
    by (simp add: octet_1a pad_2)
next
  case (3 a b)
  have a: "(of_char a :: nat) < 256" and b: "(of_char b :: nat) < 256"
    by (rule nat_of_char_less_256)+
  have bd: "(of_char b :: nat) div 16 < 16"
    using b by (rule quotient_16)
  show ?case
    using b64_roundtrip [OF sextet_1 [OF a]]
      b64_roundtrip [OF sextet_3 [OF b, of "of_char a"]]
      b64_roundtrip [OF sextet_4 [of "of_char b"]] bd
    by simp
next
  case (4 a b c r)
  have a: "(of_char a :: nat) < 256" and b: "(of_char b :: nat) < 256"
    and c: "(of_char c :: nat) < 256"
    by (rule nat_of_char_less_256)+
  have w: "(of_char c :: nat) mod 64 < 64" by simp
  have bd: "(of_char b :: nat) div 16 < 16"
    using b by (rule quotient_16)
  have cd: "(of_char c :: nat) div 64 < 4"
    using c by (rule quotient_64)
  show ?case
    using b64_roundtrip [OF sextet_1 [OF a]]
      b64_roundtrip [OF sextet_3 [OF b, of "of_char a"]]
      b64_roundtrip [OF sextet_5 [OF c, of "of_char b"]]
      b64_roundtrip [OF w] "4.IH" bd cd
    by simp
qed

lemma utf8_1: "(of_char c :: nat) < 128 \<Longrightarrow> utf8 (c # t) = utf8 t"
  by simp

lemma utf8_2:
  "194 \<le> (of_char c :: nat) \<Longrightarrow> (of_char c :: nat) < 224 \<Longrightarrow>
   utf8 (c # t) = (case t of c1 # r \<Rightarrow> is_cont c1 \<and> utf8 r | _ \<Rightarrow> False)"
  by simp

lemma utf8_3:
  "224 \<le> (of_char c :: nat) \<Longrightarrow> (of_char c :: nat) < 240 \<Longrightarrow>
   utf8 (c # t) =
     (case t of
        c1 # c2 # r \<Rightarrow>
          is_cont c1 \<and> is_cont c2
          \<and> (if (of_char c :: nat) = 224 then 160 \<le> (of_char c1 :: nat) else True)
          \<and> (if (of_char c :: nat) = 237 then (of_char c1 :: nat) < 160 else True)
          \<and> utf8 r
      | _ \<Rightarrow> False)"
  by simp

lemma utf8_4:
  "240 \<le> (of_char c :: nat) \<Longrightarrow> (of_char c :: nat) < 245 \<Longrightarrow>
   utf8 (c # t) =
     (case t of
        c1 # c2 # c3 # r \<Rightarrow>
          is_cont c1 \<and> is_cont c2 \<and> is_cont c3
          \<and> (if (of_char c :: nat) = 240 then 144 \<le> (of_char c1 :: nat) else True)
          \<and> (if (of_char c :: nat) = 244 then (of_char c1 :: nat) < 144 else True)
          \<and> utf8 r
      | _ \<Rightarrow> False)"
  by simp

lemma utf8_bad:
  "128 \<le> (of_char c :: nat) \<Longrightarrow> (of_char c :: nat) < 194 \<or> 245 \<le> (of_char c :: nat) \<Longrightarrow>
   utf8 (c # t) = False"
  by auto

lemma utf8_append: "utf8 a \<Longrightarrow> utf8 b \<Longrightarrow> utf8 (a @ b)"
proof (induction a rule: length_induct)
  case (1 a)
  note IH = "1.IH" and a = "1.prems"(1) and b = "1.prems"(2)
  show ?case
  proof (cases a)
    case Nil
    with b show ?thesis by simp
  next
    case (Cons c cs)
    consider (one) "(of_char c :: nat) < 128"
      | (two) "194 \<le> (of_char c :: nat)" "(of_char c :: nat) < 224"
      | (three) "224 \<le> (of_char c :: nat)" "(of_char c :: nat) < 240"
      | (four) "240 \<le> (of_char c :: nat)" "(of_char c :: nat) < 245"
      | (bad) "128 \<le> (of_char c :: nat)" "(of_char c :: nat) < 194 \<or> 245 \<le> (of_char c :: nat)"
      by linarith
    then show ?thesis
    proof cases
      case one
      have "utf8 cs"
        using a unfolding Cons utf8_1 [OF one] .
      then have "utf8 (cs @ b)"
        using IH b Cons by simp
      then show ?thesis
        unfolding Cons append_Cons utf8_1 [OF one] .
    next
      case two
      from a obtain c1 r where cs: "cs = c1 # r" and c1: "is_cont c1" and r: "utf8 r"
        unfolding Cons utf8_2 [OF two] by (cases cs) simp_all
      have "utf8 (r @ b)"
        using IH b r Cons cs by simp
      then show ?thesis
        unfolding Cons cs append_Cons utf8_2 [OF two] using c1 by simp
    next
      case three
      from a obtain c1 c2 r where cs: "cs = c1 # c2 # r"
        and c1: "is_cont c1 \<and> is_cont c2
          \<and> (if (of_char c :: nat) = 224 then 160 \<le> (of_char c1 :: nat) else True)
          \<and> (if (of_char c :: nat) = 237 then (of_char c1 :: nat) < 160 else True)"
        and r: "utf8 r"
        unfolding Cons utf8_3 [OF three]
        by (cases cs; cases "tl cs") simp_all
      have "utf8 (r @ b)"
        using IH b r Cons cs by simp
      then show ?thesis
        unfolding Cons cs append_Cons utf8_3 [OF three] using c1 by simp
    next
      case four
      from a obtain c1 c2 c3 r where cs: "cs = c1 # c2 # c3 # r"
        and c1: "is_cont c1 \<and> is_cont c2 \<and> is_cont c3
          \<and> (if (of_char c :: nat) = 240 then 144 \<le> (of_char c1 :: nat) else True)
          \<and> (if (of_char c :: nat) = 244 then (of_char c1 :: nat) < 144 else True)"
        and r: "utf8 r"
        unfolding Cons utf8_4 [OF four]
        by (cases cs; cases "tl cs"; cases "tl (tl cs)") simp_all
      have "utf8 (r @ b)"
        using IH b r Cons cs by simp
      then show ?thesis
        unfolding Cons cs append_Cons utf8_4 [OF four] using c1 by simp
    next
      case bad
      from a show ?thesis
        unfolding Cons utf8_bad [OF bad] by simp
    qed
  qed
qed

lemma hex_digit_ascii: "k < 16 \<Longrightarrow> (of_char (hex_digit k) :: nat) < 128"
proof -
  have "\<forall>k \<in> set [0..<16]. (of_char (hex_digit k) :: nat) < 128"
    by code_simp
  then show "k < 16 \<Longrightarrow> (of_char (hex_digit k) :: nat) < 128"
    by simp
qed

lemma escape_char_ascii:
  assumes "(of_char c :: nat) < 128"
  shows "list_all (\<lambda>x. (of_char x :: nat) < 128) (escape_char c)"
proof -
  have d: "(of_char c :: nat) div 16 < 16"
    using assms by simp
  have h1: "(of_char (hex_digit ((of_char c :: nat) div 16)) :: nat) < 128"
    using d by (rule hex_digit_ascii)
  have h2: "(of_char (hex_digit ((of_char c :: nat) mod 16)) :: nat) < 128"
    by (rule hex_digit_ascii) simp
  show ?thesis
    using assms h1 h2 by (simp add: escape_char_def)
qed

lemma utf8_ascii_prefix:
  "list_all (\<lambda>x. (of_char x :: nat) < 128) xs \<Longrightarrow> utf8 (xs @ t) = utf8 t"
  by (induction xs) (simp_all del: utf8.simps add: utf8_1)

lemma utf8_escape_char_low:
  assumes "(of_char c :: nat) < 128"
  shows "utf8 (escape_char c @ t) = utf8 t"
  using escape_char_ascii [OF assms] by (rule utf8_ascii_prefix)

lemma special_chars_low:
  "c \<in> set [CHR 0x22, CHR 0x5C, CHR 0x08, CHR 0x0C, CHR 0x0A, CHR 0x0D, CHR 0x09]
   \<Longrightarrow> (of_char c :: nat) < 128"
  by auto

lemma escape_char_high:
  assumes "128 \<le> (of_char c :: nat)"
  shows "escape_char c = [c]"
proof -
  have "c \<notin> set [CHR 0x22, CHR 0x5C, CHR 0x08, CHR 0x0C, CHR 0x0A, CHR 0x0D, CHR 0x09]"
    using assms special_chars_low [of c] by linarith
  then show ?thesis
    using assms by (simp add: escape_char_def)
qed

lemma escape_cont: "is_cont c \<Longrightarrow> escape_char c = [c]"
  by (rule escape_char_high) (simp add: is_cont_def)

lemma utf8_escape: "utf8 s \<Longrightarrow> utf8 (escape s)"
proof (induction s rule: length_induct)
  case (1 s)
  note IH = "1.IH" and s = "1.prems"
  show ?case
  proof (cases s)
    case Nil
    then show ?thesis by simp
  next
    case (Cons c cs)
    consider (one) "(of_char c :: nat) < 128"
      | (two) "194 \<le> (of_char c :: nat)" "(of_char c :: nat) < 224"
      | (three) "224 \<le> (of_char c :: nat)" "(of_char c :: nat) < 240"
      | (four) "240 \<le> (of_char c :: nat)" "(of_char c :: nat) < 245"
      | (bad) "128 \<le> (of_char c :: nat)" "(of_char c :: nat) < 194 \<or> 245 \<le> (of_char c :: nat)"
      by linarith
    then show ?thesis
    proof cases
      case one
      have "utf8 cs"
        using s unfolding Cons utf8_1 [OF one] .
      then have "utf8 (escape cs)"
        using IH Cons by simp
      then show ?thesis
        unfolding Cons escape.simps utf8_escape_char_low [OF one] .
    next
      case two
      then have hc: "escape_char c = [c]"
        by (intro escape_char_high) simp
      from s obtain c1 r where cs: "cs = c1 # r" and c1: "is_cont c1" and r: "utf8 r"
        unfolding Cons utf8_2 [OF two] by (cases cs) simp_all
      have e: "utf8 (escape r)"
        using IH r Cons cs by simp
      have "escape s = c # c1 # escape r"
        unfolding Cons cs escape.simps hc escape_cont [OF c1] by simp
      then show ?thesis
        using e c1 by (simp only: utf8_2 [OF two] list.case simp_thms)
    next
      case three
      then have hc: "escape_char c = [c]"
        by (intro escape_char_high) simp
      from s obtain c1 c2 r where cs: "cs = c1 # c2 # r"
        and c1: "is_cont c1" and c2: "is_cont c2"
        and x: "(if (of_char c :: nat) = 224 then 160 \<le> (of_char c1 :: nat) else True)
          \<and> (if (of_char c :: nat) = 237 then (of_char c1 :: nat) < 160 else True)"
        and r: "utf8 r"
        unfolding Cons utf8_3 [OF three]
        by (cases cs; cases "tl cs") simp_all
      have e: "utf8 (escape r)"
        using IH r Cons cs by simp
      have "escape s = c # c1 # c2 # escape r"
        unfolding Cons cs escape.simps hc escape_cont [OF c1] escape_cont [OF c2] by simp
      then show ?thesis
        using e c1 c2 x by (simp only: utf8_3 [OF three] list.case simp_thms)
    next
      case four
      then have hc: "escape_char c = [c]"
        by (intro escape_char_high) simp
      from s obtain c1 c2 c3 r where cs: "cs = c1 # c2 # c3 # r"
        and c1: "is_cont c1" and c2: "is_cont c2" and c3: "is_cont c3"
        and x: "(if (of_char c :: nat) = 240 then 144 \<le> (of_char c1 :: nat) else True)
          \<and> (if (of_char c :: nat) = 244 then (of_char c1 :: nat) < 144 else True)"
        and r: "utf8 r"
        unfolding Cons utf8_4 [OF four]
        by (cases cs; cases "tl cs"; cases "tl (tl cs)") simp_all
      have e: "utf8 (escape r)"
        using IH r Cons cs by simp
      have "escape s = c # c1 # c2 # c3 # escape r"
        unfolding Cons cs escape.simps hc escape_cont [OF c1] escape_cont [OF c2]
          escape_cont [OF c3] by simp
      then show ?thesis
        using e c1 c2 c3 x by (simp only: utf8_4 [OF four] list.case simp_thms)
    next
      case bad
      from s show ?thesis
        unfolding Cons utf8_bad [OF bad] by simp
    qed
  qed
qed

lemma utf8_quote: "utf8 s \<Longrightarrow> utf8 (quote s)"
proof -
  assume "utf8 s"
  then have "utf8 (escape s)" by (rule utf8_escape)
  moreover have "utf8 [CHR 0x22]" by simp
  ultimately have "utf8 (escape s @ [CHR 0x22])" by (rule utf8_append)
  then show "utf8 (quote s)" by (simp add: quote_def)
qed

lemma utf8_intersperse:
  "utf8 sep \<Longrightarrow> \<forall>x \<in> set xs. utf8 x \<Longrightarrow> utf8 (intersperse sep xs)"
proof (induction sep xs rule: intersperse.induct)
  case (1 sep)
  show ?case by simp
next
  case (2 sep x)
  then show ?case by simp
next
  case (3 sep x y ys)
  have i: "utf8 (intersperse sep (y # ys))"
    using 3 by simp
  have "utf8 (sep @ intersperse sep (y # ys))"
    using 3(2) i by (rule utf8_append)
  moreover have "utf8 x"
    using 3(3) by simp
  ultimately have "utf8 (x @ sep @ intersperse sep (y # ys))"
    by (simp only: utf8_append)
  then show ?case by simp
qed

lemma map_of_rendered:
  "map_of (map (\<lambda>kv. (fst kv, f (snd kv))) kvs) k = map_option f (map_of kvs k)"
  by (induction kvs) auto

lemma stringify_flat:
  assumes "\<forall>(k, v) \<in> set kvs. v = JUndefined \<or> (\<exists>s. v = JStr s)"
  shows "JSON_stringify (JObj kvs) K = Some (object_text (string_members kvs K))"
proof -
  have each: "(case map_of (map (\<lambda>kv. (fst kv, JSON_stringify (snd kv) K)) kvs) k of
                 Some (Some t) \<Rightarrow> [quote k @ '':'' @ t]
               | _ \<Rightarrow> [])
      = map member_text (case map_of kvs k of Some (JStr s) \<Rightarrow> [(k, s)] | _ \<Rightarrow> [])" for k
  proof (cases "map_of kvs k")
    case None
    then show ?thesis
      by (simp add: map_of_rendered [where f = "\<lambda>v. JSON_stringify v K"])
  next
    case (Some v)
    then have "(k, v) \<in> set kvs" by (rule map_of_SomeD)
    with assms have "v = JUndefined \<or> (\<exists>s. v = JStr s)" by auto
    then show ?thesis
      using Some
      by (auto simp: map_of_rendered [where f = "\<lambda>v. JSON_stringify v K"] member_text_def)
  qed
  show ?thesis
    by (simp add: Let_def each object_text_def string_members_def map_concat comp_def)
qed

lemma skip_ws_keep: "\<not> is_ws c \<Longrightarrow> skip_ws (c # r) = c # r"
  by (simp add: skip_ws_def)

lemma not_ws [simp]:
  "\<not> is_ws (CHR 0x22)" "\<not> is_ws (CHR '':'')" "\<not> is_ws (CHR '','')"
  "\<not> is_ws (CHR ''}'')" "\<not> is_ws (CHR ''{'')"
  by (simp_all add: is_ws_def)

lemma skip_ws_quote: "skip_ws (quote s @ r) = quote s @ r"
  by (simp add: quote_def skip_ws_keep)

lemma parse_value_string:
  "parse_value (Suc n) (quote s @ r) = Inr (JStr s, r)"
  by (simp add: quote_def parse_chars_escape)

lemma parse_members_last:
  "parse_members (Suc (Suc m)) acc (member_text (k, s) @ CHR ''}'' # rest)
     = Inr (JObj (assoc_set acc k (JStr s)), rest)"
proof -
  have t: "member_text (k, s) @ CHR ''}'' # rest
      = CHR 0x22 # escape k @ CHR 0x22 # CHR '':'' # quote s @ CHR ''}'' # rest"
    by (simp add: member_text_def quote_def)
  show ?thesis
    unfolding t
    by (subst parse_members.simps)
       (simp add: parse_chars_escape skip_ws_keep skip_ws_quote parse_value_string
          del: parse_value.simps parse_members.simps)
qed

lemma parse_members_more:
  "parse_members (Suc (Suc m)) acc (member_text (k, s) @ CHR '','' # rest)
     = parse_members (Suc m) (assoc_set acc k (JStr s)) (skip_ws rest)"
proof -
  have t: "member_text (k, s) @ CHR '','' # rest
      = CHR 0x22 # escape k @ CHR 0x22 # CHR '':'' # quote s @ CHR '','' # rest"
    by (simp add: member_text_def quote_def)
  show ?thesis
    unfolding t
    by (subst parse_members.simps)
       (simp add: parse_chars_escape skip_ws_keep skip_ws_quote parse_value_string
          del: parse_value.simps parse_members.simps)
qed

lemma intersperse_Cons:
  "xs \<noteq> [] \<Longrightarrow> intersperse sep (x # xs) = x @ sep @ intersperse sep xs"
  by (cases xs) simp_all

lemma members_start:
  "ps \<noteq> [] \<Longrightarrow> \<exists>t. intersperse '','' (map member_text ps) = CHR 0x22 # t"
proof (cases ps)
  case Nil
  assume "ps \<noteq> []"
  with Nil show ?thesis by simp
next
  case (Cons p qs)
  show ?thesis
    unfolding Cons by (cases qs) (simp_all add: member_text_def quote_def)
qed

lemma skip_ws_members:
  assumes "ps \<noteq> []"
  shows "skip_ws (intersperse '','' (map member_text ps) @ r)
     = intersperse '','' (map member_text ps) @ r"
proof -
  from members_start [OF assms] obtain t
    where "intersperse '','' (map member_text ps) = CHR 0x22 # t" ..
  then show ?thesis by (simp add: skip_ws_keep)
qed

lemma string_object_Cons:
  "string_object (p # ps) = (fst p, JStr (snd p)) # string_object ps"
  by (simp add: string_object_def)

lemma keys_string_object [simp]: "map fst (string_object ps) = map fst ps"
  by (simp add: string_object_def comp_def)

lemma parse_members_text:
  assumes "ps \<noteq> []" and "distinct (map fst ps)"
    and "fst ` set acc \<inter> fst ` set ps = {}" and "length ps < n"
  shows "parse_members n acc (intersperse '','' (map member_text ps) @ CHR ''}'' # rest)
     = Inr (JObj (acc @ string_object ps), rest)"
  using assms
proof (induction ps arbitrary: acc n rule: list_nonempty_induct)
  case (single p)
  from single(3) obtain m where n: "n = Suc (Suc m)"
    by (cases n; cases "n - 1") simp_all
  have fresh: "fst p \<notin> fst ` set acc"
    using single(2) by auto
  show ?case
    unfolding n using parse_members_last [of m acc "fst p" "snd p" rest] fresh
    by (simp add: assoc_set_new string_object_def)
next
  case (cons p ps)
  from cons(5) obtain m where n: "n = Suc (Suc m)"
    by (cases n; cases "n - 1") simp_all
  have fresh: "fst p \<notin> fst ` set acc"
    using cons(4) by auto
  have shape: "intersperse '','' (map member_text (p # ps)) @ CHR ''}'' # rest
      = member_text (fst p, snd p) @ CHR '','' #
          (intersperse '','' (map member_text ps) @ CHR ''}'' # rest)"
    using cons(1) by (simp add: intersperse_Cons)
  have d: "distinct (map fst ps)"
    using cons(3) by simp
  have disj: "fst ` set (acc @ [(fst p, JStr (snd p))]) \<inter> fst ` set ps = {}"
    using cons(3) cons(4) by auto
  have len: "length ps < Suc m"
    using cons(5) n by simp
  have set_acc: "assoc_set acc (fst p) (JStr (snd p)) = acc @ [(fst p, JStr (snd p))]"
    using fresh by (rule assoc_set_new)
  have keep: "skip_ws (intersperse '','' (map member_text ps) @ CHR ''}'' # rest)
      = intersperse '','' (map member_text ps) @ CHR ''}'' # rest"
    using cons(1) by (rule skip_ws_members)
  have "parse_members n acc (intersperse '','' (map member_text (p # ps)) @ CHR ''}'' # rest)
      = parse_members (Suc m) (acc @ [(fst p, JStr (snd p))])
          (intersperse '','' (map member_text ps) @ CHR ''}'' # rest)"
    unfolding n shape parse_members_more set_acc keep ..
  also have "\<dots> = Inr (JObj ((acc @ [(fst p, JStr (snd p))]) @ string_object ps), rest)"
    using d disj len by (rule cons.IH)
  finally show ?case
    by (simp add: string_object_Cons)
qed

lemma length_members: "length ps \<le> length (intersperse sep (map member_text ps))"
proof (induction ps rule: induct_list012)
  case 1
  show ?case by simp
next
  case (2 p)
  show ?case by (simp add: member_text_def quote_def)
next
  case (3 p q qs)
  have "1 \<le> length (member_text p)"
    by (simp add: member_text_def quote_def)
  with 3(2) show ?case by simp
qed

lemma JSON_parse_object_text:
  assumes "distinct (map fst ps)"
  shows "JSON_parse (object_text ps) = Inr (JObj (string_object ps))"
proof (cases "ps = []")
  case True
  show ?thesis
    unfolding True
    by (simp add: JSON_parse_def object_text_def string_object_def skip_ws_keep skip_ws_def)
next
  case False
  let ?body = "intersperse '','' (map member_text ps)"
  have t: "object_text ps = CHR ''{'' # ?body @ [CHR ''}'']"
    by (simp add: object_text_def)
  from members_start [OF False] obtain u where u: "?body = CHR 0x22 # u" ..
  have sk: "skip_ws (?body @ [CHR ''}'']) = ?body @ [CHR ''}'']"
    using skip_ws_members [OF False, of "[CHR ''}'']"] .
  have first: "?body @ [CHR ''}''] \<noteq> [] \<and> hd (?body @ [CHR ''}'']) \<noteq> CHR ''}''"
    unfolding u by simp
  have len: "length ps < length (object_text ps)"
    unfolding t using length_members [of ps "'',''"] by simp
  have mem: "parse_members (length (object_text ps)) [] (?body @ CHR ''}'' # [])
      = Inr (JObj ([] @ string_object ps), [])"
    using False assms _ len by (rule parse_members_text) simp
  have "parse_value (Suc (length (object_text ps))) (object_text ps)
      = Inr (JObj (string_object ps), [])"
    using first mem by (simp add: t sk del: parse_members.simps)
  then show ?thesis
    by (simp add: JSON_parse_def t skip_ws_keep skip_ws_def)
qed

lemma base64ToString_stringToBase64:
  "utf8 s \<Longrightarrow> base64ToString (stringToBase64 s) = Inr s"
  by (simp add: base64ToString_def stringToBase64_def base64_roundtrip)

lemma utf8_object_text:
  assumes "\<forall>p \<in> set ps. utf8 (fst p) \<and> utf8 (snd p)"
  shows "utf8 (object_text ps)"
proof -
  have m: "\<forall>x \<in> set (map member_text ps). utf8 x"
  proof
    fix x assume "x \<in> set (map member_text ps)"
    then obtain p where p: "p \<in> set ps" and x: "x = member_text p" by auto
    have "utf8 (quote (snd p))"
      using assms p by (intro utf8_quote) simp
    then have "utf8 ('':'' @ quote (snd p))"
      by simp
    moreover have "utf8 (quote (fst p))"
      using assms p by (intro utf8_quote) simp
    ultimately show "utf8 x"
      unfolding x member_text_def by (rule utf8_append [rotated])
  qed
  have "utf8 (intersperse '','' (map member_text ps))"
    using _ m by (rule utf8_intersperse) simp
  moreover have "utf8 ''}''" by simp
  ultimately have "utf8 (intersperse '','' (map member_text ps) @ ''}'')"
    by (rule utf8_append)
  then show ?thesis
    by (simp add: object_text_def)
qed

lemma flat_values:
  assumes "flat_object kvs"
  shows "\<forall>(k, v) \<in> set kvs. v = JUndefined \<or> (\<exists>s. v = JStr s)"
proof -
  have a: "\<forall>kv \<in> set kvs. (case snd kv of JUndefined \<Rightarrow> True | JStr s \<Rightarrow> utf8 s | _ \<Rightarrow> False)"
    using assms by (simp add: flat_object_def list_all_iff)
  have "v = JUndefined \<or> (\<exists>s. v = JStr s)" if "(k, v) \<in> set kvs" for k v
    using a that by (cases v) force+
  then show ?thesis by auto
qed

lemma keys_string_members:
  "map fst (string_members kvs K) = filter (has_string kvs) K"
  by (induction K) (auto simp: string_members_def has_string_def split: option.splits jsval.splits)

lemma string_members_filter:
  "string_members kvs (filter (has_string kvs) K) = string_members kvs K"
  by (induction K) (auto simp: string_members_def has_string_def split: option.splits jsval.splits)

lemma in_string_members:
  "p \<in> set (string_members kvs K) \<Longrightarrow> map_of kvs (fst p) = Some (JStr (snd p))"
  by (induction K) (auto simp: string_members_def split: option.splits jsval.splits)

lemma map_of_string_members:
  "map_of (string_object (string_members kvs K)) k =
     (if k \<in> set K then (case map_of kvs k of Some (JStr s) \<Rightarrow> Some (JStr s) | _ \<Rightarrow> None)
      else None)"
  by (induction K)
     (auto simp: string_members_def string_object_def split: option.splits jsval.splits)

lemma string_members_cong:
  assumes "\<forall>k \<in> set K. (case map_of a k of Some (JStr s) \<Rightarrow> Some (JStr s) | _ \<Rightarrow> None)
                      = (case map_of b k of Some (JStr s) \<Rightarrow> Some (JStr s) | _ \<Rightarrow> None)"
  shows "string_members a K = string_members b K"
  using assms
  by (induction K) (auto simp: string_members_def split: option.splits jsval.splits)

lemma flat_member:
  assumes "flat_object kvs" and "map_of kvs k = Some (JStr s)"
  shows "utf8 k \<and> list_all (\<lambda>c. (of_char c :: nat) < 240) k \<and> utf8 s"
proof -
  have "(k, JStr s) \<in> set kvs"
    using assms(2) by (rule map_of_SomeD)
  then show ?thesis
    using assms(1) by (force simp: flat_object_def list_all_iff)
qed

lemma flat_string_object:
  assumes "distinct (map fst ps)"
    and "\<forall>p \<in> set ps. utf8 (fst p) \<and> list_all (\<lambda>c. (of_char c :: nat) < 240) (fst p) \<and> utf8 (snd p)"
  shows "flat_object (string_object ps)"
  using assms by (auto simp: flat_object_def string_object_def list_all_iff comp_def)

lemma members_wellformed:
  assumes "flat_object kvs" and "p \<in> set (string_members kvs K)"
  shows "utf8 (fst p) \<and> list_all (\<lambda>c. (of_char c :: nat) < 240) (fst p) \<and> utf8 (snd p)"
  using flat_member [OF assms(1) in_string_members [OF assms(2)]] .

lemma distinct_members:
  "distinct K \<Longrightarrow> distinct (map fst (string_members kvs K))"
  by (simp add: keys_string_members)

lemma encode_flat_object:
  assumes "flat_object kvs"
  shows "encodeConnectionInfo (JObj kvs)
     = Inr (stringToBase64 (object_text (string_members kvs (sort (map fst kvs)))))"
proof -
  have keys: "list_all (list_all (\<lambda>c. (of_char c :: nat) < 240)) (map fst kvs)"
    using assms by (auto simp: flat_object_def list_all_iff)
  have srt: "sort_strings (map fst kvs) = Inr (sort (map fst kvs))"
    using keys by (simp add: sort_strings_def)
  show ?thesis
    using srt stringify_flat [OF flat_values [OF assms]]
    by (simp add: encodeConnectionInfo_def Object_keys_def)
qed

lemma decode_object_text:
  assumes "distinct (map fst ps)"
    and "\<forall>p \<in> set ps. utf8 (fst p) \<and> list_all (\<lambda>c. (of_char c :: nat) < 240) (fst p) \<and> utf8 (snd p)"
  shows "decodeConnectionInfo (stringToBase64 (object_text ps))
     = Inr (JObj (string_object (string_members (string_object ps) (sort (map fst ps)))))"
proof -
  let ?ps2 = "string_members (string_object ps) (sort (map fst ps))"
  have flat: "flat_object (string_object ps)"
    using assms by (rule flat_string_object)
  have u1: "utf8 (object_text ps)"
    using assms(2) by (intro utf8_object_text) simp
  have b1: "base64ToString (stringToBase64 (object_text ps)) = Inr (object_text ps)"
    using u1 by (rule base64ToString_stringToBase64)
  have p1: "JSON_parse (object_text ps) = Inr (JObj (string_object ps))"
    using assms(1) by (rule JSON_parse_object_text)
  have e: "encodeConnectionInfo (JObj (string_object ps))
      = Inr (stringToBase64 (object_text ?ps2))"
    using encode_flat_object [OF flat] by simp
  have u2: "utf8 (object_text ?ps2)"
    using members_wellformed [OF flat] by (intro utf8_object_text) blast
  have b2: "base64ToString (stringToBase64 (object_text ?ps2)) = Inr (object_text ?ps2)"
    using u2 by (rule base64ToString_stringToBase64)
  have d2: "distinct (map fst ?ps2)"
    using assms(1) by (intro distinct_members) simp
  have p2: "JSON_parse (object_text ?ps2) = Inr (JObj (string_object ?ps2))"
    using d2 by (rule JSON_parse_object_text)
  show ?thesis
    by (simp add: decodeConnectionInfo_def b1 p1 e b2 p2)
qed

lemma string_members_drop:
  "k \<notin> set K \<Longrightarrow> string_members ((k, v) # kvs) K = string_members kvs K"
  by (intro string_members_cong) auto

lemma string_members_self:
  "distinct (map fst ps) \<Longrightarrow> string_members (string_object ps) (map fst ps) = ps"
proof (induction ps)
  case Nil
  show ?case by (simp add: string_members_def)
next
  case (Cons p ps)
  have k: "fst p \<notin> set (map fst ps)"
    using Cons.prems by simp
  have "string_members (string_object (p # ps)) (map fst (p # ps))
      = p # string_members ((fst p, JStr (snd p)) # string_object ps) (map fst ps)"
    by (simp add: string_members_def string_object_def)
  also have "\<dots> = p # string_members (string_object ps) (map fst ps)"
    unfolding string_members_drop [OF k] ..
  finally show ?case
    using Cons by simp
qed

lemma sorted_members_self:
  assumes "sorted (map fst ps)" and "distinct (map fst ps)"
  shows "string_members (string_object ps) (sort (map fst ps)) = ps"
  using assms by (simp add: sorted_sort_id string_members_self)

lemma key_names_wellformed:
  "k \<in> set [''id'', ''displayName'', ''type'', ''cluster'', ''database'']
   \<Longrightarrow> utf8 k \<and> list_all (\<lambda>c. (of_char c :: nat) < 240) k"
  by auto

lemma js_get_member:
  "distinct (map fst kvs) \<Longrightarrow> (k, v) \<in> set kvs \<Longrightarrow> js_get (JObj kvs) k = v"
  by simp

lemma IConnectionInfo_flat:
  assumes "is_IConnectionInfo x"
  shows "\<exists>kvs. x = JObj kvs \<and> flat_object kvs"
proof -
  from assms obtain kvs where x: "x = JObj kvs"
    by (cases x)
       (auto simp: is_IConnectionInfo_def is_AzureAuthenticatedConnectionInfo_def
          is_AppInsightsConnectionInfo_def)
  have d: "distinct (map fst kvs)"
    using assms x
    by (auto simp: is_IConnectionInfo_def is_AzureAuthenticatedConnectionInfo_def
          is_AppInsightsConnectionInfo_def)
  have keys: "\<forall>kv \<in> set kvs.
      fst kv \<in> set [''id'', ''displayName'', ''type'', ''cluster'', ''database'']"
    using assms x
    by (auto simp: is_IConnectionInfo_def is_AzureAuthenticatedConnectionInfo_def
          is_AppInsightsConnectionInfo_def list_all_iff)
  have vals: "optional_string_field (js_get x k)"
    if "k \<in> set [''id'', ''displayName'', ''type'', ''cluster'', ''database'']" for k
  proof -
    have t: "optional_string_field (JStr ''azAuth'')" "optional_string_field (JStr ''appInsights'')"
      by (simp_all add: optional_string_field_def)
    have s: "string_field v \<Longrightarrow> optional_string_field v" for v
      by (cases v) (simp_all add: string_field_def optional_string_field_def)
    have absent: "optional_string_field (js_get x k)"
      if "k \<notin> fst ` set kvs"
    proof -
      have "map_of kvs k = None"
        using that by (simp add: map_of_eq_None_iff)
      then show ?thesis
        by (simp add: x optional_string_field_def)
    qed
    consider (az) "is_AzureAuthenticatedConnectionInfo x" | (ai) "is_AppInsightsConnectionInfo x"
      using assms by (auto simp: is_IConnectionInfo_def)
    then show ?thesis
    proof cases
      case az
      then have "string_field (js_get x ''id'')" "string_field (js_get x ''displayName'')"
        "js_get x ''type'' = JStr ''azAuth''" "string_field (js_get x ''cluster'')"
        "optional_string_field (js_get x ''database'')"
        using x by (simp_all add: is_AzureAuthenticatedConnectionInfo_def)
      with that t s show ?thesis
        by auto
    next
      case ai
      then have f: "string_field (js_get x ''id'')" "string_field (js_get x ''displayName'')"
        "js_get x ''type'' = JStr ''appInsights''"
        and ks: "\<forall>k' \<in> fst ` set kvs. k' \<in> set [''id'', ''displayName'', ''type'']"
        using x by (simp_all add: is_AppInsightsConnectionInfo_def list_all_iff)
      show ?thesis
      proof (cases "k \<in> fst ` set kvs")
        case True
        with ks have "k \<in> set [''id'', ''displayName'', ''type'']" by blast
        with f t s show ?thesis by auto
      next
        case False
        then show ?thesis by (rule absent)
      qed
    qed
  qed
  have "utf8 (fst kv) \<and> list_all (\<lambda>c. (of_char c :: nat) < 240) (fst kv)
        \<and> (case snd kv of JUndefined \<Rightarrow> True | JStr s \<Rightarrow> utf8 s | _ \<Rightarrow> False)"
    if "kv \<in> set kvs" for kv
  proof -
    have k: "fst kv \<in> set [''id'', ''displayName'', ''type'', ''cluster'', ''database'']"
      using keys that by blast
    have "js_get x (fst kv) = snd kv"
      unfolding x using d that by (intro js_get_member) simp_all
    with vals [OF k] have "optional_string_field (snd kv)"
      by simp
    then have "(case snd kv of JUndefined \<Rightarrow> True | JStr s \<Rightarrow> utf8 s | _ \<Rightarrow> False)"
      by (simp add: optional_string_field_def)
    with key_names_wellformed [OF k] show ?thesis
      by simp
  qed
  then have "flat_object kvs"
    using d by (simp add: flat_object_def list_all_iff)
  with x show ?thesis by blast
qed

lemma canonical_wellformed:
  assumes "flat_object kvs"
  shows "distinct (map fst (canonical_members kvs))"
    and "sorted (map fst (canonical_members kvs))"
    and "\<forall>p \<in> set (canonical_members kvs).
           utf8 (fst p) \<and> list_all (\<lambda>c. (of_char c :: nat) < 240) (fst p) \<and> utf8 (snd p)"
proof -
  have d: "distinct (map fst kvs)"
    using assms by (simp add: flat_object_def)
  show "distinct (map fst (canonical_members kvs))"
    unfolding canonical_members_def using d by (intro distinct_members) simp
  show "sorted (map fst (canonical_members kvs))"
    unfolding canonical_members_def keys_string_members
    by (intro sorted_wrt_filter) simp
  show "\<forall>p \<in> set (canonical_members kvs).
           utf8 (fst p) \<and> list_all (\<lambda>c. (of_char c :: nat) < 240) (fst p) \<and> utf8 (snd p)"
    unfolding canonical_members_def using members_wellformed [OF assms] by blast
qed

lemma decode_canonical:
  assumes "flat_object kvs"
  shows "decodeConnectionInfo (stringToBase64 (object_text (canonical_members kvs)))
     = Inr (JObj (string_object (canonical_members kvs)))"
  using decode_object_text [OF canonical_wellformed(1,3) [OF assms]]
    sorted_members_self [OF canonical_wellformed(2,1) [OF assms]]
  by simp

lemma js_get_canonical:
  assumes "flat_object kvs"
  shows "js_get (JObj (string_object (canonical_members kvs))) k = js_get (JObj kvs) k"
proof (cases "map_of kvs k")
  case None
  then show ?thesis
    by (simp add: canonical_members_def map_of_string_members)
next
  case (Some v)
  then have mem: "(k, v) \<in> set kvs" by (rule map_of_SomeD)
  then have k: "k \<in> set (sort (map fst kvs))" by force
  from flat_values [OF assms] mem have "v = JUndefined \<or> (\<exists>s. v = JStr s)" by auto
  then show ?thesis
    using Some k by (auto simp: canonical_members_def map_of_string_members)
qed

lemma decode_any_order:
  assumes "flat_object kvs" and "distinct K" and "set K = set (map fst kvs)"
  shows "decodeConnectionInfo (stringToBase64 (object_text (string_members kvs K)))
     = Inr (JObj (string_object (canonical_members kvs)))"
proof -
  let ?ps = "string_members kvs K"
  have d: "distinct (map fst kvs)"
    using assms(1) by (simp add: flat_object_def)
  have dps: "distinct (map fst ?ps)"
    using assms(2) by (rule distinct_members)
  have wf: "\<forall>p \<in> set ?ps.
      utf8 (fst p) \<and> list_all (\<lambda>c. (of_char c :: nat) < 240) (fst p) \<and> utf8 (snd p)"
    using members_wellformed [OF assms(1)] by blast
  have sortK: "sort K = sort (map fst kvs)"
    using assms(2,3) d by (intro sorted_distinct_set_unique) simp_all
  have keys: "sort (map fst ?ps) = filter (has_string kvs) (sort (map fst kvs))"
    unfolding keys_string_members filter_sort [symmetric] sortK ..
  have same: "string_members (string_object ?ps) (filter (has_string kvs) (sort (map fst kvs)))
      = string_members kvs (filter (has_string kvs) (sort (map fst kvs)))"
  proof (rule string_members_cong, rule ballI)
    fix k assume "k \<in> set (filter (has_string kvs) (sort (map fst kvs)))"
    then have "k \<in> set K"
      using assms(3) by simp
    then show "(case map_of (string_object ?ps) k of Some (JStr s) \<Rightarrow> Some (JStr s) | _ \<Rightarrow> None)
        = (case map_of kvs k of Some (JStr s) \<Rightarrow> Some (JStr s) | _ \<Rightarrow> None)"
      by (simp add: map_of_string_members split: option.splits jsval.splits)
  qed
  have "string_members (string_object ?ps) (sort (map fst ?ps)) = canonical_members kvs"
    unfolding keys same string_members_filter canonical_members_def ..
  with decode_object_text [OF dps wf] show ?thesis
    by simp
qed

lemma encode_permutation:
  assumes "distinct (map fst kvs)" and "mset kvs' = mset kvs"
  shows "encodeConnectionInfo (JObj kvs') = encodeConnectionInfo (JObj kvs)"
proof -
  have s: "set kvs' = set kvs"
    using assms(2) by (rule mset_eq_setD)
  have "mset (map fst kvs') = mset (map fst kvs)"
    using assms(2) by (metis mset_map)
  then have d': "distinct (map fst kvs')"
    using assms(1) by (metis mset_eq_imp_distinct_iff)
  have m: "map_of kvs' = map_of kvs"
    using d' assms(1) s by (simp add: map_of_inject_set)
  have ks: "set (map fst kvs') = set (map fst kvs)"
    using s by simp
  have srt: "sort (map fst kvs') = sort (map fst kvs)"
    using ks d' assms(1) by (intro sorted_distinct_set_unique) simp_all
  have chk: "sort_strings (map fst kvs') = sort_strings (map fst kvs)"
    using ks srt by (simp add: sort_strings_def list_all_iff)
  have str: "JSON_stringify (JObj kvs') K = JSON_stringify (JObj kvs) K" for K
    by (simp add: Let_def map_of_rendered [where f = "\<lambda>v. JSON_stringify v K"] m)
  show ?thesis
    by (simp add: encodeConnectionInfo_def Object_keys_def chk str
        del: JSON_stringify.simps split: sum.split)
qed

lemma encode_injective_content:
  assumes "is_IConnectionInfo a" and "is_IConnectionInfo b"
    and "encodeConnectionInfo a = encodeConnectionInfo b"
  shows "js_get a k = js_get b k"
proof -
  from IConnectionInfo_flat [OF assms(1)] obtain ka where a: "a = JObj ka" and fa: "flat_object ka"
    by blast
  from IConnectionInfo_flat [OF assms(2)] obtain kb where b: "b = JObj kb" and fb: "flat_object kb"
    by blast
  have "stringToBase64 (object_text (canonical_members ka))
      = stringToBase64 (object_text (canonical_members kb))"
    using assms(3) encode_flat_object [OF fa] encode_flat_object [OF fb]
    by (simp add: a b canonical_members_def)
  then have "string_object (canonical_members ka) = string_object (canonical_members kb)"
    using decode_canonical [OF fa] decode_canonical [OF fb] by simp
  then show ?thesis
    using js_get_canonical [OF fa, of k] js_get_canonical [OF fb, of k] by (simp add: a b)
qed

lemma foldl_dispose:
  "foldl (\<lambda>s c. \<lparr>registeredControllers = remove1 c (registeredControllers s),
                  disposed = disposed s @ [c]\<rparr>) st xs
   = \<lparr>registeredControllers = foldl (\<lambda>r c. remove1 c r) (registeredControllers st) xs,
      disposed = disposed st @ xs\<rparr>"
  by (induction xs arbitrary: st) simp_all

lemma remove1_prefix: "c \<notin> set pre \<Longrightarrow> remove1 c (pre @ c # cs) = pre @ cs"
  by (induction pre) auto

lemma foldl_remove_filter:
  "\<forall>x \<in> set pre. \<not> P x \<Longrightarrow>
   foldl (\<lambda>r c. remove1 c r) (pre @ cs) (filter P cs) = pre @ filter (\<lambda>x. \<not> P x) cs"
proof (induction cs arbitrary: pre)
  case Nil
  show ?case by simp
next
  case (Cons c cs)
  show ?case
  proof (cases "P c")
    case True
    then have "c \<notin> set pre" using Cons.prems by auto
    then show ?thesis
      using True Cons.IH [OF Cons.prems] by (simp add: remove1_prefix)
  next
    case False
    then have "\<forall>x \<in> set (pre @ [c]). \<not> P x" using Cons.prems by simp
    from Cons.IH [OF this] show ?thesis
      using False by simp
  qed
qed

lemma onConnectionChanged_removed:
  assumes "change \<noteq> ''added''"
  shows "onConnectionChanged st (removed, change)
     = \<lparr>registeredControllers =
          filter (\<lambda>c. \<not> strict_equal (js_get (connection c) ''id'') (js_get removed ''id''))
                 (registeredControllers st),
        disposed = disposed st @
          filter (\<lambda>c. strict_equal (js_get (connection c) ''id'') (js_get removed ''id''))
                 (registeredControllers st)\<rparr>"
  using assms foldl_remove_filter [of "[]" _ "registeredControllers st"]
  by (simp add: onConnectionChanged_def foldl_dispose)

lemma embedded_same_id:
  assumes "is_IConnectionInfo a" and "is_IConnectionInfo b"
    and "getControllerId a nt = Inr key" and "getControllerId b nt = Inr key"
  shows "strict_equal (js_get a ''id'') (js_get b ''id'')"
proof -
  have enc: "encodeConnectionInfo a = encodeConnectionInfo b"
    using assms(3,4) by (auto simp: getControllerId_def split: sum.splits)
  have same: "js_get a ''id'' = js_get b ''id''"
    using assms(1,2) enc by (rule encode_injective_content)
  have "string_field (js_get a ''id'')"
    using assms(1)
    by (auto simp: is_IConnectionInfo_def is_AzureAuthenticatedConnectionInfo_def
        is_AppInsightsConnectionInfo_def split: jsval.splits)
  then obtain s where a: "js_get a ''id'' = JStr s"
    by (cases "js_get a ''id''") (simp_all add: string_field_def)
  then have b: "js_get b ''id'' = JStr s"
    using same by simp
  show ?thesis
    unfolding a b by (simp add: strict_equal_def)
qed

text \<open>
  Claim C4. For every ConnectionInfo \<open>x\<close>, \<open>encodeConnectionInfo\<close> yields a token that
  \<open>decodeConnectionInfo\<close> turns back into a value with the fields of \<open>x\<close> (a field that
  is \<open>undefined\<close> reads as \<open>undefined\<close> on both sides), and every permutation of the
  insertion order of the fields of \<open>x\<close> yields the same token.
\<close>

theorem encodeConnectionInfo_roundtrip:
  assumes "is_IConnectionInfo x"
  shows "\<exists>t y. encodeConnectionInfo x = Inr t
           \<and> decodeConnectionInfo t = Inr y
           \<and> (\<forall>k. js_get y k = js_get x k)
           \<and> (\<forall>kvs kvs'. x = JObj kvs \<and> mset kvs' = mset kvs
                 \<longrightarrow> encodeConnectionInfo (JObj kvs') = Inr t)"
proof -
  from IConnectionInfo_flat [OF assms] obtain kvs where x: "x = JObj kvs" and f: "flat_object kvs"
    by blast
  let ?t = "stringToBase64 (object_text (canonical_members kvs))"
  let ?y = "JObj (string_object (canonical_members kvs))"
  have e: "encodeConnectionInfo x = Inr ?t"
    using encode_flat_object [OF f] by (simp add: x canonical_members_def)
  have d: "decodeConnectionInfo ?t = Inr ?y"
    using f by (rule decode_canonical)
  have g: "\<forall>k. js_get ?y k = js_get x k"
    using js_get_canonical [OF f] by (simp add: x)
  have dk: "distinct (map fst kvs)"
    using f by (simp add: flat_object_def)
  have p: "\<forall>kvs0 kvs'. x = JObj kvs0 \<and> mset kvs' = mset kvs0
      \<longrightarrow> encodeConnectionInfo (JObj kvs') = Inr ?t"
  proof (intro allI impI)
    fix kvs0 kvs'
    assume a: "x = JObj kvs0 \<and> mset kvs' = mset kvs0"
    then have "kvs0 = kvs"
      using x by simp
    with a have "mset kvs' = mset kvs"
      by simp
    from encode_permutation [OF dk this] e x
    show "encodeConnectionInfo (JObj kvs') = Inr ?t"
      by simp
  qed
  show ?thesis
    by (rule exI [where x = ?t], rule exI [where x = ?y])
       (rule conjI [OF e conjI [OF d conjI [OF g p]]])
qed

theorem encodeConnectionInfo_roundtrip_witness:
  "\<exists>t y. encodeConnectionInfo
            (JObj [(''type'', JStr ''azAuth''), (''id'', JStr ''help''),
                   (''displayName'', JStr ''Help cluster''), (''cluster'', JStr ''help''),
                   (''database'', JUndefined)]) = Inr t
     \<and> decodeConnectionInfo t = Inr y
     \<and> js_get y ''cluster'' = JStr ''help'' \<and> js_get y ''database'' = JUndefined
     \<and> encodeConnectionInfo
            (JObj [(''database'', JUndefined), (''cluster'', JStr ''help''),
                   (''displayName'', JStr ''Help cluster''), (''id'', JStr ''help''),
                   (''type'', JStr ''azAuth'')]) = Inr t"
proof -
  let ?kvs = "[(''type'', JStr ''azAuth''), (''id'', JStr ''help''),
                   (''displayName'', JStr ''Help cluster''), (''cluster'', JStr ''help''),
                   (''database'', JUndefined)]"
  let ?kvs' = "[(''database'', JUndefined), (''cluster'', JStr ''help''),
                   (''displayName'', JStr ''Help cluster''), (''id'', JStr ''help''),
                   (''type'', JStr ''azAuth'')]"
  have h: "is_IConnectionInfo (JObj ?kvs)"
    by (simp add: is_IConnectionInfo_def is_AzureAuthenticatedConnectionInfo_def
        string_field_def optional_string_field_def)
  have m: "mset ?kvs' = mset ?kvs"
    by simp
  from encodeConnectionInfo_roundtrip [OF h] obtain t y
    where e: "encodeConnectionInfo (JObj ?kvs) = Inr t"
      and d: "decodeConnectionInfo t = Inr y"
      and g: "\<forall>k. js_get y k = js_get (JObj ?kvs) k"
      and p: "\<forall>kvs kvs'. JObj ?kvs = JObj kvs \<and> mset kvs' = mset kvs
                 \<longrightarrow> encodeConnectionInfo (JObj kvs') = Inr t"
    by (elim exE conjE)
  have c: "js_get y ''cluster'' = JStr ''help''"
    using g [rule_format, of "''cluster''"] by simp
  have b: "js_get y ''database'' = JUndefined"
    using g [rule_format, of "''database''"] by simp
  have e': "encodeConnectionInfo (JObj ?kvs') = Inr t"
    using p [rule_format, of ?kvs ?kvs'] m by simp
  show ?thesis
    by (rule exI [where x = t], rule exI [where x = y])
       (rule conjI [OF e conjI [OF d conjI [OF c conjI [OF b e']]]])
qed

lemma encode_canonical:
  assumes "flat_object kvs"
  shows "encodeConnectionInfo (JObj (string_object (canonical_members kvs)))
     = Inr (stringToBase64 (object_text (canonical_members kvs)))"
proof -
  have flat: "flat_object (string_object (canonical_members kvs))"
    using canonical_wellformed(1,3) [OF assms] by (rule flat_string_object)
  show ?thesis
    using encode_flat_object [OF flat] sorted_members_self [OF canonical_wellformed(2,1) [OF assms]]
    by simp
qed

text \<open>
  Claim C5, as the spec states it, fails: a token whose JSON has the keys in unsorted
  order is not rejected. \<open>decodeConnectionInfo\<close> returns the value with sorted keys,
  whose encoding differs from the token it was given.
\<close>

theorem decodeConnectionInfo_no_rejection_counterexample:
  "decodeConnectionInfo ''eyJ0eXBlIjoiYXBwSW5zaWdodHMiLCJpZCI6ImEiLCJkaXNwbGF5TmFtZSI6ImIifQ==''
     = Inr (JObj [(''displayName'', JStr ''b''), (''id'', JStr ''a''),
                  (''type'', JStr ''appInsights'')])
   \<and> encodeConnectionInfo (JObj [(''displayName'', JStr ''b''), (''id'', JStr ''a''),
                                 (''type'', JStr ''appInsights'')])
     = Inr ''eyJkaXNwbGF5TmFtZSI6ImIiLCJpZCI6ImEiLCJ0eXBlIjoiYXBwSW5zaWdodHMifQ==''
   \<and> ''eyJkaXNwbGF5TmFtZSI6ImIiLCJpZCI6ImEiLCJ0eXBlIjoiYXBwSW5zaWdodHMifQ==''
     \<noteq> ''eyJ0eXBlIjoiYXBwSW5zaWdodHMiLCJpZCI6ImEiLCJkaXNwbGF5TmFtZSI6ImIifQ==''"
  by code_simp

text \<open>
  Claim C5, amended. \<open>decodeConnectionInfo\<close> re-encodes the decoded value with sorted
  keys and returns the parse of that re-encoding, without comparing it with the token it
  was given: the token made from the JSON of a ConnectionInfo with its fields in any order
  is accepted, decodes to the same value as the canonical token, with the fields of the
  ConnectionInfo, and that value encodes to the canonical token.
\<close>

theorem decodeConnectionInfo_accepts_any_order:
  assumes "is_IConnectionInfo (JObj kvs)"
    and "distinct K" and "set K = set (map fst kvs)"
    and "JSON_stringify (JObj kvs) K = Some json"
  shows "\<exists>t y. encodeConnectionInfo (JObj kvs) = Inr t
           \<and> decodeConnectionInfo (stringToBase64 json) = Inr y
           \<and> decodeConnectionInfo t = Inr y
           \<and> (\<forall>k. js_get y k = js_get (JObj kvs) k)
           \<and> encodeConnectionInfo y = Inr t"
proof -
  from IConnectionInfo_flat [OF assms(1)] have f: "flat_object kvs"
    by simp
  let ?t = "stringToBase64 (object_text (canonical_members kvs))"
  let ?y = "JObj (string_object (canonical_members kvs))"
  have j: "json = object_text (string_members kvs K)"
    using assms(4) stringify_flat [OF flat_values [OF f], of K] by simp
  have e: "encodeConnectionInfo (JObj kvs) = Inr ?t"
    using encode_flat_object [OF f] by (simp add: canonical_members_def)
  have d1: "decodeConnectionInfo (stringToBase64 json) = Inr ?y"
    unfolding j using f assms(2,3) by (rule decode_any_order)
  have d2: "decodeConnectionInfo ?t = Inr ?y"
    using f by (rule decode_canonical)
  have g: "\<forall>k. js_get ?y k = js_get (JObj kvs) k"
    using js_get_canonical [OF f] by simp
  have e2: "encodeConnectionInfo ?y = Inr ?t"
    using f by (rule encode_canonical)
  show ?thesis
    by (rule exI [where x = ?t], rule exI [where x = ?y])
       (rule conjI [OF e conjI [OF d1 conjI [OF d2 conjI [OF g e2]]]])
qed

theorem decodeConnectionInfo_accepts_any_order_witness:
  \<open>\<exists>t y. encodeConnectionInfo
            (JObj [(''type'', JStr ''appInsights''), (''id'', JStr ''c''),
                   (''displayName'', JStr ''d'')]) = Inr t
     \<and> decodeConnectionInfo
          (stringToBase64 ''{"type":"appInsights","id":"c","displayName":"d"}'') = Inr y
     \<and> decodeConnectionInfo t = Inr y
     \<and> js_get y ''id'' = JStr ''c''
     \<and> encodeConnectionInfo y = Inr t\<close>
proof -
  let ?kvs = "[(''type'', JStr ''appInsights''), (''id'', JStr ''c''),
                   (''displayName'', JStr ''d'')]"
  let ?K = "[''type'', ''id'', ''displayName'']"
  have h1: "is_IConnectionInfo (JObj ?kvs)"
    by (simp add: is_IConnectionInfo_def is_AppInsightsConnectionInfo_def
        is_AzureAuthenticatedConnectionInfo_def string_field_def optional_string_field_def)
  have h2: "distinct ?K"
    by simp
  have h3: "set ?K = set (map fst ?kvs)"
    by simp
  have h4: \<open>JSON_stringify (JObj ?kvs) ?K
      = Some ''{"type":"appInsights","id":"c","displayName":"d"}''\<close>
    by code_simp
  from decodeConnectionInfo_accepts_any_order [OF h1 h2 h3 h4] obtain t y
    where e: "encodeConnectionInfo (JObj ?kvs) = Inr t"
      and d1: \<open>decodeConnectionInfo
          (stringToBase64 ''{"type":"appInsights","id":"c","displayName":"d"}'') = Inr y\<close>
      and d2: "decodeConnectionInfo t = Inr y"
      and g: "\<forall>k. js_get y k = js_get (JObj ?kvs) k"
      and e2: "encodeConnectionInfo y = Inr t"
    by (elim exE conjE)
  have i: "js_get y ''id'' = JStr ''c''"
    using g [rule_format, of "''id''"] by simp
  show ?thesis
    by (rule exI [where x = t], rule exI [where x = y])
       (rule conjI [OF e conjI [OF d1 conjI [OF d2 conjI [OF i e2]]]])
qed

section \<open>Properties of the controller registry\<close>

text \<open>
  Claim C9. On an event that is not \<open>added\<close>, every registered controller whose id is
  the key of the removed connection (its notebook type, an underscore and the encoded
  connection) is disposed and leaves \<open>registeredControllers\<close>, so that no registered
  controller is left with that key; an \<open>added\<close> event leaves the registry as it was.
\<close>

theorem onConnectionChanged_tears_down:
  assumes "\<forall>c \<in> set (registeredControllers st).
             is_IConnectionInfo (connection c)
             \<and> getControllerId (connection c) (notebookType c) = Inr (notebookController_id c)"
    and "is_IConnectionInfo removed"
    and "change \<noteq> ''added''"
  shows "(\<forall>c \<in> set (registeredControllers st).
            getControllerId removed (notebookType c) = Inr (notebookController_id c)
            \<longrightarrow> c \<in> set (disposed (onConnectionChanged st (removed, change)))
              \<and> c \<notin> set (registeredControllers (onConnectionChanged st (removed, change))))
       \<and> (\<forall>c \<in> set (registeredControllers (onConnectionChanged st (removed, change))).
            getControllerId removed (notebookType c) \<noteq> Inr (notebookController_id c))
       \<and> onConnectionChanged st (other, ''added'') = st"
proof -
  let ?P = "\<lambda>c. strict_equal (js_get (connection c) ''id'') (js_get removed ''id'')"
  have after: "onConnectionChanged st (removed, change)
      = \<lparr>registeredControllers = filter (\<lambda>c. \<not> ?P c) (registeredControllers st),
         disposed = disposed st @ filter ?P (registeredControllers st)\<rparr>"
    using assms(3) by (rule onConnectionChanged_removed)
  have match: "?P c"
    if "c \<in> set (registeredControllers st)"
      and "getControllerId removed (notebookType c) = Inr (notebookController_id c)" for c
  proof -
    have "is_IConnectionInfo (connection c)"
      and "getControllerId (connection c) (notebookType c) = Inr (notebookController_id c)"
      using assms(1) that(1) by simp_all
    show ?thesis
      using \<open>is_IConnectionInfo (connection c)\<close> assms(2)
        \<open>getControllerId (connection c) (notebookType c) = Inr (notebookController_id c)\<close>
        that(2)
      by (rule embedded_same_id)
  qed
  have a: "\<forall>c \<in> set (registeredControllers st).
            getControllerId removed (notebookType c) = Inr (notebookController_id c)
            \<longrightarrow> c \<in> set (disposed (onConnectionChanged st (removed, change)))
              \<and> c \<notin> set (registeredControllers (onConnectionChanged st (removed, change)))"
    unfolding after using match by simp
  have b: "\<forall>c \<in> set (registeredControllers (onConnectionChanged st (removed, change))).
            getControllerId removed (notebookType c) \<noteq> Inr (notebookController_id c)"
    unfolding after using match by auto
  have c: "onConnectionChanged st (other, ''added'') = st"
    by (simp add: onConnectionChanged_def)
  from a b c show ?thesis
    by (intro conjI)
qed

theorem onConnectionChanged_tears_down_witness:
  "\<lparr>notebookType = ''kusto-notebook'',
     connection = JObj [(''type'', JStr ''appInsights''), (''id'', JStr ''a''),
                        (''displayName'', JStr ''b'')],
     notebookController_id =
       ''kusto-notebook_eyJkaXNwbGF5TmFtZSI6ImIiLCJpZCI6ImEiLCJ0eXBlIjoiYXBwSW5zaWdodHMifQ==''\<rparr>
     \<in> set (disposed (onConnectionChanged
         \<lparr>registeredControllers =
            [\<lparr>notebookType = ''kusto-notebook'',
               connection = JObj [(''type'', JStr ''appInsights''), (''id'', JStr ''a''),
                                  (''displayName'', JStr ''b'')],
               notebookController_id =
                 ''kusto-notebook_eyJkaXNwbGF5TmFtZSI6ImIiLCJpZCI6ImEiLCJ0eXBlIjoiYXBwSW5zaWdodHMifQ==''\<rparr>,
             \<lparr>notebookType = ''kusto-notebook'',
               connection = JObj [(''type'', JStr ''appInsights''), (''id'', JStr ''c''),
                                  (''displayName'', JStr ''d'')],
               notebookController_id =
                 ''kusto-notebook_eyJkaXNwbGF5TmFtZSI6ImQiLCJpZCI6ImMiLCJ0eXBlIjoiYXBwSW5zaWdodHMifQ==''\<rparr>],
          disposed = []\<rparr>
         (JObj [(''id'', JStr ''a''), (''displayName'', JStr ''b''),
                (''type'', JStr ''appInsights'')], ''removed'')))
   \<and> \<lparr>notebookType = ''kusto-notebook'',
     connection = JObj [(''type'', JStr ''appInsights''), (''id'', JStr ''a''),
                        (''displayName'', JStr ''b'')],
     notebookController_id =
       ''kusto-notebook_eyJkaXNwbGF5TmFtZSI6ImIiLCJpZCI6ImEiLCJ0eXBlIjoiYXBwSW5zaWdodHMifQ==''\<rparr>
     \<notin> set (registeredControllers (onConnectionChanged
         \<lparr>registeredControllers =
            [\<lparr>notebookType = ''kusto-notebook'',
               connection = JObj [(''type'', JStr ''appInsights''), (''id'', JStr ''a''),
                                  (''displayName'', JStr ''b'')],
               notebookController_id =
                 ''kusto-notebook_eyJkaXNwbGF5TmFtZSI6ImIiLCJpZCI6ImEiLCJ0eXBlIjoiYXBwSW5zaWdodHMifQ==''\<rparr>,
             \<lparr>notebookType = ''kusto-notebook'',
               connection = JObj [(''type'', JStr ''appInsights''), (''id'', JStr ''c''),
                                  (''displayName'', JStr ''d'')],
               notebookController_id =
                 ''kusto-notebook_eyJkaXNwbGF5TmFtZSI6ImQiLCJpZCI6ImMiLCJ0eXBlIjoiYXBwSW5zaWdodHMifQ==''\<rparr>],
          disposed = []\<rparr>
         (JObj [(''id'', JStr ''a''), (''displayName'', JStr ''b''),
                (''type'', JStr ''appInsights'')], ''removed'')))"
proof -
  let ?A = "JObj [(''type'', JStr ''appInsights''), (''id'', JStr ''a''),
                        (''displayName'', JStr ''b'')]"
  let ?C = "JObj [(''type'', JStr ''appInsights''), (''id'', JStr ''c''),
                        (''displayName'', JStr ''d'')]"
  let ?R = "JObj [(''id'', JStr ''a''), (''displayName'', JStr ''b''),
                (''type'', JStr ''appInsights'')]"
  let ?ka = "''kusto-notebook_eyJkaXNwbGF5TmFtZSI6ImIiLCJpZCI6ImEiLCJ0eXBlIjoiYXBwSW5zaWdodHMifQ==''"
  let ?kc = "''kusto-notebook_eyJkaXNwbGF5TmFtZSI6ImQiLCJpZCI6ImMiLCJ0eXBlIjoiYXBwSW5zaWdodHMifQ==''"
  let ?c1 = "\<lparr>notebookType = ''kusto-notebook'', connection = ?A, notebookController_id = ?ka\<rparr>"
  let ?c2 = "\<lparr>notebookType = ''kusto-notebook'', connection = ?C, notebookController_id = ?kc\<rparr>"
  let ?st = "\<lparr>registeredControllers = [?c1, ?c2], disposed = []\<rparr>"
  have ia: "is_IConnectionInfo ?A"
    by (simp add: is_IConnectionInfo_def is_AppInsightsConnectionInfo_def
        is_AzureAuthenticatedConnectionInfo_def string_field_def optional_string_field_def)
  have ic: "is_IConnectionInfo ?C"
    by (simp add: is_IConnectionInfo_def is_AppInsightsConnectionInfo_def
        is_AzureAuthenticatedConnectionInfo_def string_field_def optional_string_field_def)
  have ir: "is_IConnectionInfo ?R"
    by (simp add: is_IConnectionInfo_def is_AppInsightsConnectionInfo_def
        is_AzureAuthenticatedConnectionInfo_def string_field_def optional_string_field_def)
  have ga: "getControllerId ?A ''kusto-notebook'' = Inr ?ka"
    by code_simp
  have gc: "getControllerId ?C ''kusto-notebook'' = Inr ?kc"
    by code_simp
  have gr: "getControllerId ?R ''kusto-notebook'' = Inr ?ka"
    by code_simp
  have h1: "\<forall>c \<in> set (registeredControllers ?st).
             is_IConnectionInfo (connection c)
             \<and> getControllerId (connection c) (notebookType c) = Inr (notebookController_id c)"
    using ia ic ga gc by simp
  have h3: "''removed'' \<noteq> ''added''"
    by simp
  have m: "?c1 \<in> set (registeredControllers ?st)"
    by simp
  have k: "getControllerId ?R (notebookType ?c1) = Inr (notebookController_id ?c1)"
    using gr by simp
  from onConnectionChanged_tears_down [OF h1 ir h3, of ?R]
  have "\<forall>c \<in> set (registeredControllers ?st).
            getControllerId ?R (notebookType c) = Inr (notebookController_id c)
            \<longrightarrow> c \<in> set (disposed (onConnectionChanged ?st (?R, ''removed'')))
              \<and> c \<notin> set (registeredControllers (onConnectionChanged ?st (?R, ''removed'')))"
    by (rule conjunct1)
  from this [rule_format, OF m k] show ?thesis .
qed

end
